theory Spec2Isabelle
  imports Complex_Main
begin

section \<open>Data model\<close>

text \<open>
  The entities of \<^verbatim>\<open>src/env/struct\<close>. A Python \<^verbatim>\<open>Request\<close> compares and hashes by its
  \<^verbatim>\<open>id\<close> only; wherever the source compares requests, the model compares \<open>rid\<close>.
  Clock values, node numbers and costs are Python integers, hence \<open>int\<close>.
\<close>

record request =
  rid :: int
  origin :: int
  destination :: int
  entry_time :: int
  ideal_traveltime :: int
  latest_boarding :: int
  latest_alighting :: int
  assigned :: bool

text \<open>\<^verbatim>\<open>NodeStop(request, is_pickup, node)\<close> of \<^verbatim>\<open>Trip.py\<close>.\<close>

record nodestop =
  stop_r :: request
  is_pickup :: bool
  node :: int

text \<open>The fields of \<^verbatim>\<open>Vehicle\<close> that the assignment core reads.\<close>

record vehicle =
  vid :: int
  capacity :: int
  vnode :: int
  offset :: int
  passengers :: "request list"
  pending_requests :: "request list"
  order_record :: "nodestop list"

text \<open>The knobs of \<^verbatim>\<open>global_var.py\<close> read by the core (strings become datatypes).\<close>

datatype ctsp = FULL | FIX_ONBOARD | FIX_PREFIX | MEGA_TSP

datatype ctsp_objective =
  CTSP_VTT | CTSP_DELAY | CTSP_TOTALDROPOFFTIME | CTSP_TOTALWAITING | CTSP_AVGDELAY

datatype algorithm = ILP_FULL | ILP_OTHER

record config =
  CTSP :: ctsp
  CTSP_OBJECTIVE :: ctsp_objective
  CARSIZE :: int
  LP_LIMITVALUE :: int
  MAX_NEW :: int
  DWELL_ALIGHT :: int
  DWELL_PICKUP :: int
  ALGORITHM :: algorithm

text \<open>
  The network oracle: the travel-time matrix is a parameter (a total function on node
  numbers); \<^verbatim>\<open>get_time\<close> answers the two dwell sentinels before it reads the matrix.
\<close>

record network =
  time_matrix :: "int \<Rightarrow> int \<Rightarrow> int"
  dwell_pickup :: int
  dwell_alight :: int

definition get_time :: "network \<Rightarrow> int \<Rightarrow> int \<Rightarrow> int" where
  "get_time net node_one node_two =
     (if node_one = - 10 then dwell_pickup net
      else if node_one = - 20 then dwell_alight net
      else time_matrix net node_one node_two)"

definition get_vehicle_time :: "network \<Rightarrow> vehicle \<Rightarrow> int \<Rightarrow> int" where
  "get_vehicle_time net v x = offset v + get_time net (vnode v) x"

datatype error = RecursionError | RuntimeError | TypeError | IndexError | NameError

section \<open>Feasibility search (insersion.py)\<close>

text \<open>
  A \<^verbatim>\<open>MetaNodeStop\<close> is a mutable object with identity. The model keeps the list
  \<^verbatim>\<open>meta_nodes\<close> as a store of pairs (wrapped stop, unlocks) and names an object by its
  position in that list; \<^verbatim>\<open>unlocks\<close> holds positions. A Python set of such objects is a
  list of positions without repetition.
\<close>

type_synonym meta_nodes = "(nodestop \<times> nat list) list"

definition meta_stop :: "meta_nodes \<Rightarrow> nat \<Rightarrow> nodestop" where
  "meta_stop M m = fst (M ! m)"

definition meta_unlocks :: "meta_nodes \<Rightarrow> nat \<Rightarrow> nat list" where
  "meta_unlocks M m = snd (M ! m)"

text \<open>\<^verbatim>\<open>NodeStop.__lt__\<close> and \<^verbatim>\<open>NodeStop.__eq__\<close>.\<close>

definition nodestop_lt :: "nodestop \<Rightarrow> nodestop \<Rightarrow> bool" where
  "nodestop_lt a b =
     (if rid (stop_r a) < rid (stop_r b) then True
      else if rid (stop_r a) = rid (stop_r b) \<and> is_pickup a < is_pickup b then True
      else False)"

definition nodestop_eq :: "nodestop \<Rightarrow> nodestop \<Rightarrow> bool" where
  "nodestop_eq a b = (rid (stop_r a) = rid (stop_r b) \<and> is_pickup a = is_pickup b)"

text \<open>
  \<^verbatim>\<open>MetaNodeStop.__lt__\<close>. Its last tie-break compares the addresses of the two unlock
  lists; the model takes creation order (the position in the store) for the address order.
\<close>

definition meta_lt :: "meta_nodes \<Rightarrow> nat \<Rightarrow> nat \<Rightarrow> bool" where
  "meta_lt M a b =
     (let x = meta_stop M a; y = meta_stop M b in
      if node x < node y then True
      else if node x > node y then False
      else if is_pickup x < is_pickup y then True
      else if is_pickup x > is_pickup y then False
      else if nodestop_lt x y \<or> (nodestop_eq x y \<and> a < b) then True
      else False)"

text \<open>\<^verbatim>\<open>sorted(initially_available)\<close>: a stable insertion sort driven by \<^verbatim>\<open>__lt__\<close>.\<close>

fun insert_meta :: "meta_nodes \<Rightarrow> nat \<Rightarrow> nat list \<Rightarrow> nat list" where
  "insert_meta M x [] = [x]"
| "insert_meta M x (y # ys) =
     (if meta_lt M y x then y # insert_meta M x ys else x # y # ys)"

definition sorted_metas :: "meta_nodes \<Rightarrow> nat list \<Rightarrow> nat list" where
  "sorted_metas M xs = foldr (insert_meta M) xs []"

text \<open>\<^verbatim>\<open>set.add\<close> on the list representation of a set.\<close>

definition set_add :: "nat list \<Rightarrow> nat \<Rightarrow> nat list" where
  "set_add A m = (if m \<in> set A then A else A @ [m])"

text \<open>
  \<^verbatim>\<open>remaining_nodes = set(initially_available) - {m}\<close> followed by the insertion of
  everything \<^verbatim>\<open>m\<close> unlocks.
\<close>

definition remaining_nodes :: "meta_nodes \<Rightarrow> nat list \<Rightarrow> nat \<Rightarrow> nat list" where
  "remaining_nodes M avail m = foldl set_add (removeAll m avail) (meta_unlocks M m)"

datatype action = PICKUP | DROPOFF | NO_ACTION

definition get_alight_deadline :: "request \<Rightarrow> int" where
  "get_alight_deadline q = latest_alighting q"

text \<open>The arrival time the loop body of \<^verbatim>\<open>recursive_search\<close> computes for candidate \<open>st\<close>.\<close>

definition arrival_time :: "config \<Rightarrow> network \<Rightarrow> int \<Rightarrow> int \<Rightarrow> action \<Rightarrow> nodestop \<Rightarrow> int" where
  "arrival_time g net initial_location current_time prev_action st =
     (let new_location = node st;
          a0 = current_time + get_time net initial_location new_location;
          a1 = (if prev_action = DROPOFF \<and> (is_pickup st \<or> initial_location \<noteq> new_location)
                then a0 + DWELL_ALIGHT g
                else if prev_action = PICKUP \<and> (\<not> is_pickup st \<or> initial_location \<noteq> new_location)
                then a0 + DWELL_PICKUP g
                else a0)
      in if is_pickup st \<and> entry_time (stop_r st) > a1 then entry_time (stop_r st) else a1)"

text \<open>The \<^verbatim>\<open>basic_reachability\<close> test over the remaining stops.\<close>

definition basic_reachability :: "network \<Rightarrow> meta_nodes \<Rightarrow> int \<Rightarrow> int \<Rightarrow> nat list \<Rightarrow> bool" where
  "basic_reachability net M arrival new_location remaining =
     list_all (\<lambda>x. arrival + get_time net new_location (node (meta_stop M x))
                    \<le> (if is_pickup (meta_stop M x)
                        then latest_boarding (stop_r (meta_stop M x))
                        else latest_alighting (stop_r (meta_stop M x)))) remaining"

text \<open>
  The body of the loop \<^verbatim>\<open>for m in initially_available\<close> of \<^verbatim>\<open>recursive_search\<close>, for
  one candidate \<open>m\<close>. The loop state is (\<^verbatim>\<open>previous\<close>, \<^verbatim>\<open>best_time\<close>, \<^verbatim>\<open>best_tail\<close>);
  \<open>rec\<close> stands for the recursive call, and \<open>None\<close> is an exception passing through.
  Every \<^verbatim>\<open>continue\<close> returns the state unchanged apart from \<^verbatim>\<open>previous\<close>. The tail is
  built in reverse (first visited stop last).
\<close>

type_synonym loop_state = "nat option \<times> int \<times> nodestop list"

type_synonym search_fn =
  "int \<Rightarrow> int \<Rightarrow> nat list \<Rightarrow> int \<Rightarrow> int \<Rightarrow> action \<Rightarrow> (int \<times> nodestop list) option"

definition loop_body ::
  "search_fn \<Rightarrow> config \<Rightarrow> network \<Rightarrow> meta_nodes \<Rightarrow> int \<Rightarrow> int \<Rightarrow> nat list \<Rightarrow> int \<Rightarrow> action
     \<Rightarrow> nat \<Rightarrow> loop_state \<Rightarrow> loop_state option" where
  "loop_body rec g net M initial_location residual_capacity srt current_time prev_action m s =
     (case s of (previous, best_time, best_tail) \<Rightarrow>
      let st = meta_stop M m in
      if previous \<noteq> None \<and> \<not> is_pickup st \<and> node (meta_stop M (the previous)) = node st
      then Some (previous, best_time, best_tail)
      else
        let new_location = node st;
            arrival = arrival_time g net initial_location current_time prev_action st;
            new_residual_capacity =
              (if is_pickup st then residual_capacity - 1 else residual_capacity + 1);
            remaining = remaining_nodes M srt m
        in
        if best_time \<noteq> - 1 \<and> arrival \<ge> best_time then Some (Some m, best_time, best_tail)
        else if new_residual_capacity < 0 then Some (Some m, best_time, best_tail)
        else if is_pickup st \<and> arrival > latest_boarding (stop_r st)
        then Some (Some m, best_time, best_tail)
        else if get_alight_deadline (stop_r st) < arrival
        then Some (Some m, best_time, best_tail)
        else if \<not> basic_reachability net M arrival new_location remaining
        then Some (Some m, best_time, best_tail)
        else
          (case rec new_location new_residual_capacity remaining arrival best_time
                  (if is_pickup st then PICKUP else DROPOFF) of
             None \<Rightarrow> None
           | Some (tail_time, tail_stops) \<Rightarrow>
               if tail_time = - 1 then Some (Some m, best_time, best_tail)
               else if best_time = - 1 \<or> tail_time < best_time
               then Some (Some m, tail_time, tail_stops @ [st])
               else Some (Some m, best_time, best_tail)))"

text \<open>Running a loop body over a list, stopping at the first exception.\<close>

fun for_loop :: "('a \<Rightarrow> 's \<Rightarrow> 's option) \<Rightarrow> 'a list \<Rightarrow> 's \<Rightarrow> 's option" where
  "for_loop body [] s = Some s"
| "for_loop body (x # xs) s =
     (case body x s of None \<Rightarrow> None | Some s' \<Rightarrow> for_loop body xs s')"

text \<open>
  \<^verbatim>\<open>recursive_search\<close>. The first argument bounds the nesting depth of the recursion, as
  the interpreter's recursion limit does; \<open>None\<close> is Python's RecursionError.
\<close>

fun recursive_search ::
  "nat \<Rightarrow> config \<Rightarrow> network \<Rightarrow> meta_nodes \<Rightarrow> int \<Rightarrow> int \<Rightarrow> nat list \<Rightarrow> int \<Rightarrow> int \<Rightarrow> action
     \<Rightarrow> (int \<times> nodestop list) option" where
  "recursive_search 0 g net M initial_location residual_capacity initially_available
      current_time best_time prev_action = None"
| "recursive_search (Suc d) g net M initial_location residual_capacity initially_available
      current_time best_time prev_action =
     (let srt = sorted_metas M initially_available in
      if srt = [] then Some (current_time, [])
      else
        (case for_loop (loop_body (recursive_search d g net M) g net M initial_location
                          residual_capacity srt current_time prev_action)
                srt (None, best_time, [])
         of None \<Rightarrow> None
          | Some (previous, best_time', best_tail) \<Rightarrow> Some (best_time', best_tail)))"

text \<open>\<^verbatim>\<open>format_path\<close>: adjust the cost and put the reversed tail front to back.\<close>

definition format_path :: "config \<Rightarrow> int \<times> nodestop list \<Rightarrow> int \<Rightarrow> int \<times> nodestop list" where
  "format_path g reverse_path current_time =
     (let cost = fst reverse_path;
          cost' = (if CTSP_OBJECTIVE g = CTSP_VTT \<and> cost \<ge> 0 then cost - current_time else cost)
      in (cost', rev (snd reverse_path)))"

subsection \<open>The stop graph built by new\_travel\<close>

text \<open>
  One round of \<^verbatim>\<open>for r in requests\<close>: the dropoff wrapper is appended first, then the
  pickup wrapper that unlocks it; the pickup wrapper joins \<^verbatim>\<open>initially_available\<close>.
\<close>

definition add_request :: "meta_nodes \<times> nat list \<Rightarrow> request \<Rightarrow> meta_nodes \<times> nat list" where
  "add_request s q =
     (case s of (M, A) \<Rightarrow>
        (M @ [(\<lparr>stop_r = q, is_pickup = False, node = destination q\<rparr>, []),
              (\<lparr>stop_r = q, is_pickup = True, node = origin q\<rparr>, [length M])],
         set_add A (length M + 1)))"

text \<open>
  \<^verbatim>\<open>for ns in vehicle.order_record: if ns.r in onboard: ...; onboard.remove(ns.r)\<close>, with
  \<^verbatim>\<open>onboard\<close> the set of passengers, kept as their ids.
\<close>

fun add_onboard :: "meta_nodes \<Rightarrow> int list \<Rightarrow> nodestop list \<Rightarrow> meta_nodes" where
  "add_onboard M onboard [] = M"
| "add_onboard M onboard (ns # rest) =
     (if rid (stop_r ns) \<in> set onboard
      then add_onboard (M @ [(ns, [])]) (removeAll (rid (stop_r ns)) onboard) rest
      else add_onboard M onboard rest)"

text \<open>
  \<^verbatim>\<open>meta_nodes[-2 - i].unlocks = [meta_nodes[-1 - i]]\<close> for each \<open>i\<close> of the range; an index
  before the start of the list is Python's IndexError.
\<close>

fun chain_unlocks :: "meta_nodes \<Rightarrow> nat list \<Rightarrow> error + meta_nodes" where
  "chain_unlocks M [] = Inr M"
| "chain_unlocks M (i # is) =
     (if 2 + i \<le> length M
      then chain_unlocks
             (M[length M - 2 - i := (fst (M ! (length M - 2 - i)), [length M - 1 - i])]) is
      else Inl IndexError)"

text \<open>\<^verbatim>\<open>initially_available.add(meta_nodes[-1 - i])\<close> for each \<open>i\<close> of the range.\<close>

fun add_last :: "meta_nodes \<Rightarrow> nat list \<Rightarrow> nat list \<Rightarrow> error + nat list" where
  "add_last M A [] = Inr A"
| "add_last M A (i # is) =
     (if 1 + i \<le> length M then add_last M (set_add A (length M - 1 - i)) is
      else Inl IndexError)"

text \<open>
  The first half of \<^verbatim>\<open>new_travel\<close>: the wrappers of the new requests, those of the onboard
  passengers, and the \<^verbatim>\<open>FIX_ONBOARD\<close> branch with its \<^verbatim>\<open>else\<close>. The result is the store
  and the set \<^verbatim>\<open>initially_available\<close>.
\<close>

definition build_stops :: "config \<Rightarrow> vehicle \<Rightarrow> request list \<Rightarrow> error + (meta_nodes \<times> nat list)" where
  "build_stops g v requests =
     (let s0 = foldl add_request ([], []) requests;
          M1 = add_onboard (fst s0) (map rid (passengers v)) (order_record v);
          n = length (passengers v)
      in if CTSP g = FIX_ONBOARD \<and> int (length requests) + int n > CARSIZE g \<and> n \<noteq> 0
         then (case chain_unlocks M1 [0..<n - 1] of
                 Inl e \<Rightarrow> Inl e
               | Inr M2 \<Rightarrow>
                   if n \<le> length M2 then Inr (M2, set_add (snd s0) (length M2 - n))
                   else Inl IndexError)
         else (case add_last M1 (snd s0) [0..<n] of
                 Inl e \<Rightarrow> Inl e
               | Inr A1 \<Rightarrow> Inr (M1, A1)))"

text \<open>
  \<^verbatim>\<open>new_travel\<close>. In the \<^verbatim>\<open>FIX_PREFIX\<close> branch the source returns \<^verbatim>\<open>(-1, [])\<close> for too many
  new requests and otherwise builds a dictionary keyed by \<^verbatim>\<open>NodeStop\<close>. \<^verbatim>\<open>NodeStop\<close> defines
  \<^verbatim>\<open>__eq__\<close> and no \<^verbatim>\<open>__hash__\<close>, so it is unhashable: the first key raises TypeError,
  and with nothing to hash the length test of the branch raises RuntimeError.
\<close>

definition new_travel ::
  "nat \<Rightarrow> config \<Rightarrow> network \<Rightarrow> vehicle \<Rightarrow> request list \<Rightarrow> int \<Rightarrow> error + (int \<times> nodestop list)" where
  "new_travel d g net v requests current_time =
     (case build_stops g v requests of
        Inl e \<Rightarrow> Inl e
      | Inr (M, A) \<Rightarrow>
          if CTSP g = FIX_PREFIX \<and> int (length M) > LP_LIMITVALUE g
          then
            (let new_requests =
                   remdups (filter (\<lambda>i. i \<notin> set (map rid (pending_requests v))) (map rid requests))
             in if int (length new_requests) * 2 > LP_LIMITVALUE g then Inr (- 1, [])
                else if M \<noteq> [] \<or> order_record v \<noteq> [] then Inl TypeError
                else Inl RuntimeError)
          else if CTSP_OBJECTIVE g = CTSP_VTT \<or> CTSP_OBJECTIVE g = CTSP_DELAY
          then
            (case recursive_search d g net M (vnode v) (capacity v - int (length (passengers v))) A
                    (current_time + offset v) (- 1) NO_ACTION of
               None \<Rightarrow> Inl RecursionError
             | Some optimal \<Rightarrow> Inr (format_path g optimal current_time))
          else Inl RuntimeError)"

text \<open>\<^verbatim>\<open>memory\<close>: one wrapper per stored stop, each unlocking the next.\<close>

definition memory :: "nat \<Rightarrow> config \<Rightarrow> network \<Rightarrow> vehicle \<Rightarrow> int \<Rightarrow> error + (int \<times> nodestop list)" where
  "memory d g net v current_time =
     (let M0 = map (\<lambda>ns. (ns, [])) (order_record v);
          A = (if M0 = [] then [] else [0]);
          M = foldl (\<lambda>M i. M[i - 1 := (fst (M ! (i - 1)), [i])]) M0 [1..<length M0]
      in case recursive_search d g net M (vnode v) (capacity v - int (length (passengers v))) A
                (current_time + offset v) (- 1) NO_ACTION of
           None \<Rightarrow> Inl RecursionError
         | Some optimal \<Rightarrow> Inr (format_path g optimal current_time))"

datatype trigger = STANDARD | MEMORY | REBALANCING

definition travel ::
  "nat \<Rightarrow> config \<Rightarrow> network \<Rightarrow> vehicle \<Rightarrow> request list \<Rightarrow> int \<Rightarrow> trigger
     \<Rightarrow> error + (int \<times> nodestop list)" where
  "travel d g net v requests current_time trig =
     (if trig = MEMORY then memory d g net v current_time
      else if trig = REBALANCING then Inl NameError
      else new_travel d g net v requests current_time)"

subsection \<open>Observations on the stop graph\<close>

text \<open>
  The wrappers of the onboard passengers are the last \<open>length (passengers v)\<close> entries of
  the store when no passenger is listed twice and every passenger has a stop in
  \<^verbatim>\<open>order_record\<close>: with \<open>n\<close> new requests they sit at positions \<open>2 * n + j\<close>.
  \<open>onboard_recorded\<close> says both: the ids of the passengers are pairwise different, and
  every passenger has a stop in \<^verbatim>\<open>order_record\<close>.
\<close>

definition onboard_recorded :: "vehicle \<Rightarrow> bool" where
  "onboard_recorded v =
     (distinct (map rid (passengers v)) \<and>
      list_all (\<lambda>p. rid p \<in> set (map (\<lambda>s. rid (stop_r s)) (order_record v))) (passengers v))"

text \<open>The stops wrapped for the onboard passengers, in \<^verbatim>\<open>order_record\<close> order.\<close>

definition onboard_stops :: "vehicle \<Rightarrow> nodestop list" where
  "onboard_stops v = map fst (add_onboard [] (map rid (passengers v)) (order_record v))"

text \<open>The stops wrapped for the new requests: dropoff, then pickup, for each request.\<close>

definition request_stops :: "request list \<Rightarrow> nodestop list" where
  "request_stops requests =
     concat (map (\<lambda>q. [\<lparr>stop_r = q, is_pickup = False, node = destination q\<rparr>,
                        \<lparr>stop_r = q, is_pickup = True, node = origin q\<rparr>]) requests)"

text \<open>
  The previous order of the onboard stops, read off \<^verbatim>\<open>order_record\<close> alone: the stops of
  \<^verbatim>\<open>order_record\<close>, in its order, that belong to a passenger and are the first one
  recorded for that passenger.
\<close>

fun first_stops :: "int list \<Rightarrow> int list \<Rightarrow> nodestop list \<Rightarrow> nodestop list" where
  "first_stops riders seen [] = []"
| "first_stops riders seen (s # rest) =
     (if rid (stop_r s) \<in> set riders \<and> rid (stop_r s) \<notin> set seen
      then s # first_stops riders (rid (stop_r s) # seen) rest
      else first_stops riders seen rest)"

definition recorded_stops :: "vehicle \<Rightarrow> nodestop list" where
  "recorded_stops v = first_stops (map rid (passengers v)) [] (order_record v)"

text \<open>
  All onboard dropoffs are initially available and unlock nothing (the order of the
  onboard dropoffs is open). The wrapper at position \<open>2 * n + j\<close> holds the \<open>j\<close>-th
  recorded stop.
\<close>

definition onboard_free :: "config \<Rightarrow> vehicle \<Rightarrow> request list \<Rightarrow> bool" where
  "onboard_free g v requests =
     (case build_stops g v requests of
        Inl e \<Rightarrow> False
      | Inr (M, A) \<Rightarrow>
          list_all (\<lambda>j. meta_stop M (2 * length requests + j) = recorded_stops v ! j \<and>
                         2 * length requests + j \<in> set A \<and>
                         meta_unlocks M (2 * length requests + j) = [])
                   [0..<length (passengers v)])"

text \<open>
  The onboard dropoffs form a fixed chain in \<^verbatim>\<open>order_record\<close> order: the wrapper at
  position \<open>2 * n + j\<close> holds the \<open>j\<close>-th recorded stop, only the first one is initially
  available, and each one unlocks exactly the next.
\<close>

definition onboard_chained :: "config \<Rightarrow> vehicle \<Rightarrow> request list \<Rightarrow> bool" where
  "onboard_chained g v requests =
     (case build_stops g v requests of
        Inl e \<Rightarrow> False
      | Inr (M, A) \<Rightarrow>
          list_all (\<lambda>j. meta_stop M (2 * length requests + j) = recorded_stops v ! j \<and>
                         (2 * length requests + j \<in> set A) = (j = 0) \<and>
                         meta_unlocks M (2 * length requests + j) =
                           (if j + 1 < length (passengers v) then [2 * length requests + j + 1]
                            else []))
                   [0..<length (passengers v)])"

text \<open>
  Example inputs: a configuration that takes capacities from the vehicle file
  (\<^verbatim>\<open>CARSIZE\<close> negative), a network on a line with 60 seconds between neighbouring nodes,
  and a vehicle of capacity 4 carrying two passengers.
\<close>

definition line_net :: network where
  "line_net = \<lparr>time_matrix = (\<lambda>a b. 60 * \<bar>a - b\<bar>), dwell_pickup = 0, dwell_alight = 0\<rparr>"

definition mk_request :: "int \<Rightarrow> int \<Rightarrow> int \<Rightarrow> request" where
  "mk_request i a b =
     \<lparr>rid = i, origin = a, destination = b, entry_time = 0, ideal_traveltime = 60 * \<bar>a - b\<bar>,
      latest_boarding = 300, latest_alighting = 60 * \<bar>a - b\<bar> + 600, assigned = False\<rparr>"

definition dropoff_of :: "request \<Rightarrow> nodestop" where
  "dropoff_of q = \<lparr>stop_r = q, is_pickup = False, node = destination q\<rparr>"

definition pickup_of :: "request \<Rightarrow> nodestop" where
  "pickup_of q = \<lparr>stop_r = q, is_pickup = True, node = origin q\<rparr>"

definition cfg_default :: config where
  "cfg_default =
     \<lparr>CTSP = FIX_ONBOARD, CTSP_OBJECTIVE = CTSP_VTT, CARSIZE = 4, LP_LIMITVALUE = 8, MAX_NEW = 8,
      DWELL_ALIGHT = 0, DWELL_PICKUP = 0, ALGORITHM = ILP_FULL\<rparr>"

definition cfg_rowcap :: config where
  "cfg_rowcap = cfg_default\<lparr>CARSIZE := - 1\<rparr>"

definition veh_two_onboard :: vehicle where
  "veh_two_onboard =
     \<lparr>vid = 1, capacity = 4, vnode = 0, offset = 0,
      passengers = [mk_request 1 0 3, mk_request 2 0 1], pending_requests = [],
      order_record = [dropoff_of (mk_request 1 0 3), dropoff_of (mk_request 2 0 1)]\<rparr>"

section \<open>The route constraints as the specification words them\<close>

text \<open>
  The arrival-time model of section 4.2, written from the specification: the arrival at
  stop \<open>m\<close> from location \<open>loc\<close> and clock \<open>now\<close> is \<open>now + time(loc, m.node)\<close>, plus the
  alighting dwell if the previous action was a dropoff and (\<open>m.node\<close> differs from
  \<open>loc\<close> or \<open>m\<close> is a pickup), else plus the pickup dwell if the previous action was a
  pickup and (\<open>m.node\<close> differs from \<open>loc\<close> or \<open>m\<close> is a dropoff); a pickup is never
  earlier than the entry time of its request.
\<close>

definition spec_arrive :: "config \<Rightarrow> network \<Rightarrow> int \<Rightarrow> int \<Rightarrow> action \<Rightarrow> nodestop \<Rightarrow> int" where
  "spec_arrive g net loc now prev m =
     (let dwell = (if prev = DROPOFF \<and> (node m \<noteq> loc \<or> is_pickup m) then DWELL_ALIGHT g
                   else if prev = PICKUP \<and> (node m \<noteq> loc \<or> \<not> is_pickup m) then DWELL_PICKUP g
                   else 0);
          arrive = now + get_time net loc (node m) + dwell
      in if is_pickup m then max arrive (entry_time (stop_r m)) else arrive)"

definition action_of :: "nodestop \<Rightarrow> action" where
  "action_of m = (if is_pickup m then PICKUP else DROPOFF)"

text \<open>The arrival times along a stop sequence.\<close>

fun arrivals :: "config \<Rightarrow> network \<Rightarrow> int \<Rightarrow> int \<Rightarrow> action \<Rightarrow> nodestop list \<Rightarrow> int list" where
  "arrivals g net loc now prev [] = []"
| "arrivals g net loc now prev (m # ms) =
     spec_arrive g net loc now prev m
       # arrivals g net (node m) (spec_arrive g net loc now prev m) (action_of m) ms"

text \<open>The arrival times of a route of vehicle \<open>v\<close> planned at clock \<open>t\<close>.\<close>

definition route_arrivals :: "config \<Rightarrow> network \<Rightarrow> vehicle \<Rightarrow> int \<Rightarrow> nodestop list \<Rightarrow> int list" where
  "route_arrivals g net v t ord = arrivals g net (vnode v) (t + offset v) NO_ACTION ord"

text \<open>
  Deadlines: a pickup is reached by \<^verbatim>\<open>latest_boarding\<close>, and every stop by the
  \<^verbatim>\<open>latest_alighting\<close> of its request.
\<close>

definition deadline_met :: "nodestop \<Rightarrow> int \<Rightarrow> bool" where
  "deadline_met m a =
     ((is_pickup m \<longrightarrow> a \<le> latest_boarding (stop_r m)) \<and> a \<le> latest_alighting (stop_r m))"

definition deadlines_ok :: "nodestop list \<Rightarrow> int list \<Rightarrow> bool" where
  "deadlines_ok ord arr = list_all2 deadline_met ord arr"

text \<open>The number of passengers onboard after each stop, starting from \<open>n\<close> onboard.\<close>

fun onboard_counts :: "int \<Rightarrow> nodestop list \<Rightarrow> int list" where
  "onboard_counts n [] = []"
| "onboard_counts n (m # ms) =
     (if is_pickup m then n + 1 else n - 1)
       # onboard_counts (if is_pickup m then n + 1 else n - 1) ms"

definition capacity_ok :: "vehicle \<Rightarrow> nodestop list \<Rightarrow> bool" where
  "capacity_ok v ord =
     list_all (\<lambda>n. n \<le> capacity v) (onboard_counts (int (length (passengers v))) ord)"

text \<open>The pickup of request \<open>q\<close> occurs in the route, and its dropoff occurs later.\<close>

definition pickup_then_dropoff :: "nodestop list \<Rightarrow> request \<Rightarrow> bool" where
  "pickup_then_dropoff ord q =
     (\<exists>i j. i < j \<and> j < length ord \<and>
            ord ! i = \<lparr>stop_r = q, is_pickup = True, node = origin q\<rparr> \<and>
            ord ! j = \<lparr>stop_r = q, is_pickup = False, node = destination q\<rparr>)"

text \<open>
  The total delay of a route: the sum over its dropoffs of
  \<open>max(0, arrival - (entry_time + ideal_traveltime))\<close>.
\<close>

definition spec_delay :: "config \<Rightarrow> network \<Rightarrow> vehicle \<Rightarrow> int \<Rightarrow> nodestop list \<Rightarrow> int" where
  "spec_delay g net v t ord =
     sum_list (map (\<lambda>(m, a). if is_pickup m then 0
                              else max 0 (a - (entry_time (stop_r m) + ideal_traveltime (stop_r m))))
                   (zip ord (route_arrivals g net v t ord)))"

section \<open>RTV graph (rtvgenerator.py)\<close>

text \<open>
  The dwell code that \<^verbatim>\<open>delay_all\<close> hands to \<^verbatim>\<open>network.get_time\<close> after stop \<open>i\<close>:
  \<open>- 20\<close> (alighting dwell), \<open>- 10\<close> (pickup dwell), or the node of the stop itself.
\<close>

definition node_type :: "nodestop list \<Rightarrow> nat \<Rightarrow> int" where
  "node_type node_list i =
     (let nd = node_list ! i in
      if \<not> is_pickup nd \<and>
         (i + 1 = length node_list \<or> is_pickup (node_list ! (i + 1))
            \<or> node (node_list ! (i + 1)) \<noteq> node nd)
      then - 20
      else if is_pickup nd \<and>
         (i + 1 = length node_list \<or> \<not> is_pickup (node_list ! (i + 1))
            \<or> node (node_list ! (i + 1)) \<noteq> node nd)
      then - 10
      else node nd)"

text \<open>The delay a dropoff adds: \<^verbatim>\<open>max(0.0, arrival_time - (r.entry_time + r.ideal_traveltime))\<close>.\<close>

definition stop_delay :: "nodestop \<Rightarrow> int \<Rightarrow> int" where
  "stop_delay nd arrival =
     (if \<not> is_pickup nd
      then max 0 (arrival - (entry_time (stop_r nd) + ideal_traveltime (stop_r nd)))
      else 0)"

text \<open>
  The loop \<^verbatim>\<open>for i in range(1, len(node_list))\<close> of \<^verbatim>\<open>delay_all\<close>, carrying
  \<^verbatim>\<open>arrival_time\<close> and \<^verbatim>\<open>delay\<close>. The delay is a Python float that only ever holds
  integers; the model keeps it an integer.
\<close>

fun delay_loop :: "network \<Rightarrow> vehicle \<Rightarrow> nodestop list \<Rightarrow> nat list \<Rightarrow> int \<Rightarrow> int \<Rightarrow> int" where
  "delay_loop net v node_list [] arrival delay = delay"
| "delay_loop net v node_list (i # rest) arrival delay =
     (let arrival1 = arrival + get_time net (node (node_list ! (i - 1))) (node (node_list ! i));
          delay1 = delay + stop_delay (node_list ! i) arrival1;
          dwell = get_time net (node_type node_list i) (vnode v)
      in delay_loop net v node_list rest (arrival1 + dwell) delay1)"

definition delay_all :: "network \<Rightarrow> vehicle \<Rightarrow> nodestop list \<Rightarrow> int \<Rightarrow> int" where
  "delay_all net v node_list current_time =
     (if node_list = [] then 0
      else
        let arrival0 = current_time + get_vehicle_time net v (node (node_list ! 0));
            delay0 = stop_delay (node_list ! 0) arrival0;
            dwell = get_time net (node_type node_list 0) (vnode v)
        in delay_loop net v node_list [1..<length node_list] (arrival0 + dwell) delay0)"

text \<open>\<^verbatim>\<open>Trip\<close> of \<^verbatim>\<open>Trip.py\<close>. A cost is an integer or, after a float entered it, a float.\<close>

record trip =
  trip_cost :: real
  trip_is_fake :: bool
  trip_use_memory :: bool
  trip_order_record :: "nodestop list"
  trip_requests :: "request list"

definition Trip :: "real \<Rightarrow> nodestop list \<Rightarrow> request list \<Rightarrow> trip" where
  "Trip c ord rs =
     \<lparr>trip_cost = c, trip_is_fake = False, trip_use_memory = False,
      trip_order_record = ord, trip_requests = rs\<rparr>"

text \<open>
  A Python set of requests holds one request per id. The model keeps such a set as a
  list without repeated ids, in insertion order; the iteration order of a Python set is
  unspecified, and nothing below depends on it.
\<close>

definition id_set :: "request list \<Rightarrow> int set" where
  "id_set rs = set (map rid rs)"

definition request_set :: "request list \<Rightarrow> request list" where
  "request_set rs = foldl (\<lambda>acc q. if rid q \<in> id_set acc then acc else acc @ [q]) [] rs"

text \<open>
  What the builder takes from its surroundings: the configuration, the network, the
  clock of the tick, the neighbours of a vehicle in the RV graph, the edges of the RR
  graph, the answer of each call of \<^verbatim>\<open>travel_timed\<close> (the flag says whether the call
  passes the time budget), and the outcome of each wall-clock test of the pair loop
  (by level and pair of positions).
\<close>

record rtv_env =
  env_cfg :: config
  env_net :: network
  env_time :: int
  env_rv :: "vehicle \<Rightarrow> request list"
  env_rr :: "int \<Rightarrow> int \<Rightarrow> bool"
  env_search :: "vehicle \<Rightarrow> bool \<Rightarrow> request list \<Rightarrow> trigger \<Rightarrow> error + (real \<times> nodestop list)"
  env_expired :: "nat \<Rightarrow> nat \<Rightarrow> nat \<Rightarrow> bool"

text \<open>The cost stored on a trip: recomputed by \<^verbatim>\<open>delay_all\<close> under \<^verbatim>\<open>CTSP_DELAY\<close>.\<close>

definition stored_cost :: "rtv_env \<Rightarrow> vehicle \<Rightarrow> real \<Rightarrow> nodestop list \<Rightarrow> real" where
  "stored_cost E v c path =
     (if CTSP_OBJECTIVE (env_cfg E) = CTSP_DELAY
      then of_int (delay_all (env_net E) v path (env_time E))
      else c)"

definition is_rr_connected :: "request list \<Rightarrow> request list \<Rightarrow> (int \<Rightarrow> int \<Rightarrow> bool) \<Rightarrow> bool" where
  "is_rr_connected requests1 requests2 rr =
     list_all (\<lambda>r1. list_all (\<lambda>r2. r1 = r2 \<or> rr r1 r2 \<or> rr r2 r1) (map rid requests2))
              (map rid requests1)"

definition all_subsets_exist :: "request list \<Rightarrow> trip list \<Rightarrow> bool" where
  "all_subsets_exist rs previous_round =
     list_all (\<lambda>q. list_ex (\<lambda>t. id_set (trip_requests t) = id_set rs - {rid q}) previous_round) rs"

text \<open>
  The body of the pair loop for the pair at positions \<open>idx1\<close>, \<open>idx2\<close> of level
  \<open>k - 1\<close>; the state is \<^verbatim>\<open>new_round\<close> and \<^verbatim>\<open>existing_trips\<close>.
\<close>

definition pair_body ::
  "rtv_env \<Rightarrow> vehicle \<Rightarrow> trip list \<Rightarrow> nat \<Rightarrow> nat \<Rightarrow> nat \<Rightarrow> trip list \<times> int set list
     \<Rightarrow> error + (trip list \<times> int set list)" where
  "pair_body E v prev k idx1 idx2 s =
     (case s of (new_round, existing_trips) \<Rightarrow>
      let trip1 = prev ! idx1;
          trip2 = prev ! idx2;
          combined_requests = request_set (trip_requests trip1 @ trip_requests trip2)
      in
      if length combined_requests \<noteq> k \<or> id_set combined_requests \<in> set existing_trips
      then Inr (new_round, existing_trips)
      else if int (length (filter (\<lambda>q. rid q \<notin> id_set (pending_requests v)) combined_requests)) * 2
                > MAX_NEW (env_cfg E)
      then Inr (new_round, existing_trips)
      else if \<not> is_rr_connected (trip_requests trip1) (trip_requests trip2) (env_rr E)
      then Inr (new_round, existing_trips)
      else if \<not> all_subsets_exist combined_requests prev
      then Inr (new_round, existing_trips)
      else
        (case env_search E v True combined_requests STANDARD of
           Inl e \<Rightarrow> Inl e
         | Inr (path_cost, path_order) \<Rightarrow>
             if path_cost < 0 then Inr (new_round, existing_trips)
             else Inr (new_round @ [Trip (stored_cost E v path_cost path_order) path_order
                                      combined_requests],
                       existing_trips @ [id_set combined_requests])))"

text \<open>
  The inner loop \<^verbatim>\<open>for idx2 in range(idx1 + 1, len(rounds[k - 1]))\<close>; an expired budget
  sets \<^verbatim>\<open>timeout\<close> and leaves this loop only.
\<close>

fun inner_loop ::
  "rtv_env \<Rightarrow> vehicle \<Rightarrow> trip list \<Rightarrow> nat \<Rightarrow> nat \<Rightarrow> nat list \<Rightarrow> trip list \<times> int set list \<times> bool
     \<Rightarrow> error + (trip list \<times> int set list \<times> bool)" where
  "inner_loop E v prev k idx1 [] s = Inr s"
| "inner_loop E v prev k idx1 (idx2 # rest) s =
     (if env_expired E k idx1 idx2 then Inr (fst s, fst (snd s), True)
      else
        (case pair_body E v prev k idx1 idx2 (fst s, fst (snd s)) of
           Inl e \<Rightarrow> Inl e
         | Inr s' \<Rightarrow> inner_loop E v prev k idx1 rest (fst s', snd s', snd (snd s))))"

fun outer_loop ::
  "rtv_env \<Rightarrow> vehicle \<Rightarrow> trip list \<Rightarrow> nat \<Rightarrow> nat list \<Rightarrow> trip list \<times> int set list \<times> bool
     \<Rightarrow> error + (trip list \<times> int set list \<times> bool)" where
  "outer_loop E v prev k [] s = Inr s"
| "outer_loop E v prev k (idx1 # rest) s =
     (case inner_loop E v prev k idx1 [idx1 + 1..<length prev] s of
        Inl e \<Rightarrow> Inl e
      | Inr s' \<Rightarrow> outer_loop E v prev k rest s')"

text \<open>
  The loop \<^verbatim>\<open>while rounds[k] and not timeout\<close>: level \<open>k + 1\<close> is built from level \<open>k\<close>
  as long as \<open>k + 1\<close> does not exceed the capacity of the vehicle.
\<close>

function grow_rounds ::
  "rtv_env \<Rightarrow> vehicle \<Rightarrow> trip list list \<Rightarrow> nat \<Rightarrow> bool \<Rightarrow> error + trip list list" where
  "grow_rounds E v rounds k timeout =
     (if rounds ! k \<noteq> [] \<and> \<not> timeout
      then
        if int (k + 1) > capacity v then Inr rounds
        else
          (case outer_loop E v (rounds ! k) (k + 1) [0..<length (rounds ! k)]
                  ([], map (\<lambda>t. id_set (trip_requests t)) (rounds ! k), timeout) of
             Inl e \<Rightarrow> Inl e
           | Inr s \<Rightarrow> grow_rounds E v (rounds @ [fst s]) (k + 1) (snd (snd s)))
      else Inr rounds)"
  by pat_completeness auto
termination
  by (relation "measure (\<lambda>(E, v, rounds, k, timeout). nat (capacity v - int k))") auto

text \<open>The loop over \<^verbatim>\<open>initial_pairing\<close> that fills the first round.\<close>

fun first_round :: "rtv_env \<Rightarrow> vehicle \<Rightarrow> request list \<Rightarrow> trip list \<Rightarrow> error + trip list" where
  "first_round E v [] acc = Inr acc"
| "first_round E v (q # rest) acc =
     (case env_search E v False [q] STANDARD of
        Inl e \<Rightarrow> Inl e
      | Inr (path_cost, path_order) \<Rightarrow>
          if path_cost < 0 then first_round E v rest acc
          else first_round E v rest
                 (acc @ [Trip (stored_cost E v path_cost path_order) path_order [q]]))"

text \<open>The levels \<^verbatim>\<open>rounds\<close> that \<^verbatim>\<open>make_rtvgraph\<close> builds for one vehicle.\<close>

definition rtv_rounds :: "rtv_env \<Rightarrow> vehicle \<Rightarrow> error + trip list list" where
  "rtv_rounds E v =
     (case env_search E v True [] STANDARD of
        Inl e \<Rightarrow> Inl e
      | Inr (c, path) \<Rightarrow>
          let baseline = (Trip 0 [] [])\<lparr>trip_cost := stored_cost E v c path,
                                        trip_order_record := path\<rparr>;
              initial_pairing = request_set (env_rv E v @ pending_requests v)
          in case first_round E v initial_pairing [] of
               Inl e \<Rightarrow> Inl e
             | Inr first \<Rightarrow> grow_rounds E v [[baseline], first] 1 False)"

text \<open>\<^verbatim>\<open>previoustrip\<close>: the stored order replayed in memory mode.\<close>

definition previoustrip :: "rtv_env \<Rightarrow> vehicle \<Rightarrow> error + trip" where
  "previoustrip E v =
     (case env_search E v False (pending_requests v) MEMORY of
        Inl e \<Rightarrow> Inl e
      | Inr (path_cost, previous_order) \<Rightarrow>
          Inr \<lparr>trip_cost = stored_cost E v path_cost previous_order, trip_is_fake = False,
               trip_use_memory = True, trip_order_record = previous_order,
               trip_requests = pending_requests v\<rparr>)"

text \<open>
  The body of \<^verbatim>\<open>make_rtvgraph\<close> for one vehicle: the list stored in
  \<^verbatim>\<open>trip_list[vehicle]\<close>, or the exception that ends the builder.
\<close>

definition rtv_vehicle :: "rtv_env \<Rightarrow> vehicle \<Rightarrow> error + trip list" where
  "rtv_vehicle E v =
     (case rtv_rounds E v of
        Inl e \<Rightarrow> Inl e
      | Inr rounds \<Rightarrow>
          let potential_trips = concat rounds in
          if list_ex (\<lambda>t. trip_cost t = - 1) potential_trips then Inl RuntimeError
          else
            let potential_trips_request_id =
                  (if length (pending_requests v) < length rounds
                   then map (\<lambda>t. map (\<lambda>s. rid (stop_r s)) (trip_order_record t))
                            (rounds ! length (pending_requests v))
                   else []);
                request_id_vehicle = map (\<lambda>s. rid (stop_r s)) (order_record v)
            in
            if order_record v \<noteq> [] \<and> request_id_vehicle \<notin> set potential_trips_request_id
            then
              (case previoustrip E v of
                 Inl e \<Rightarrow> Inl e
               | Inr previous_trip \<Rightarrow>
                   if trip_cost previous_trip = - 1 then Inl RuntimeError
                   else Inr (potential_trips @ [previous_trip]))
            else Inr potential_trips)"

declare grow_rounds.simps [simp del]

text \<open>
  The admission gates of a level \<open>k\<close> trip \<open>T\<close> over the trips \<open>prev\<close> of level \<open>k - 1\<close>,
  as the specification words them: the request set of \<open>T\<close> is the union of the request
  sets of two trips of \<open>prev\<close> and has exactly \<open>k\<close> requests; twice the number of its
  requests that are not pending is at most \<^verbatim>\<open>MAX_NEW\<close>; every pair of distinct requests,
  one from each parent, is joined by an RR edge in one direction at least; and every
  subset of \<open>k - 1\<close> of its requests is the request set of a trip of \<open>prev\<close>.
\<close>

definition admitted :: "rtv_env \<Rightarrow> vehicle \<Rightarrow> trip list \<Rightarrow> nat \<Rightarrow> trip \<Rightarrow> bool" where
  "admitted E v prev k T =
     (\<exists>T1 \<in> set prev. \<exists>T2 \<in> set prev.
        id_set (trip_requests T) = id_set (trip_requests T1) \<union> id_set (trip_requests T2) \<and>
        card (id_set (trip_requests T)) = k \<and>
        2 * int (card (id_set (trip_requests T) - id_set (pending_requests v)))
          \<le> MAX_NEW (env_cfg E) \<and>
        (\<forall>a \<in> id_set (trip_requests T1). \<forall>b \<in> id_set (trip_requests T2).
           a \<noteq> b \<longrightarrow> env_rr E a b \<or> env_rr E b a) \<and>
        (\<forall>S. S \<subseteq> id_set (trip_requests T) \<and> card S = k - 1 \<longrightarrow>
           (\<exists>T' \<in> set prev. id_set (trip_requests T') = S)))"

section \<open>Assignment (assignment.py)\<close>

text \<open>
  The constraints that \<^verbatim>\<open>ilp_assignment\<close> adds to the model: the set of indices of the
  variables \<open>e\<close> that are summed, the index of the variable \<open>x\<close> added to the sum (if
  any), the sense, and the right-hand side.
\<close>

datatype sense = EQ | LE

record constraint =
  con_e :: "nat set"
  con_x :: "nat option"
  con_sense :: sense
  con_rhs :: int

text \<open>
  The first loop: every trip gets the next index, and \<^verbatim>\<open>rids_to_trips\<close> maps a request
  id to the set of indices of the trips that hold a request of that id.
\<close>

text \<open>\<^verbatim>\<open>rids_to_trips.get(rid, [])\<close>.\<close>

definition indices_of :: "(int \<Rightarrow> nat set option) \<Rightarrow> int \<Rightarrow> nat set" where
  "indices_of rids_to_trips i = (case rids_to_trips i of None \<Rightarrow> {} | Some s \<Rightarrow> s)"

fun index_requests :: "request list \<Rightarrow> nat \<Rightarrow> (int \<Rightarrow> nat set option) \<Rightarrow> (int \<Rightarrow> nat set option)" where
  "index_requests [] index rids_to_trips = rids_to_trips"
| "index_requests (q # rest) index rids_to_trips =
     index_requests rest index
       (rids_to_trips(rid q \<mapsto> insert index (indices_of rids_to_trips (rid q))))"

fun index_trips :: "trip list \<Rightarrow> nat \<times> (int \<Rightarrow> nat set option) \<Rightarrow> nat \<times> (int \<Rightarrow> nat set option)" where
  "index_trips [] s = s"
| "index_trips (t # rest) s =
     index_trips rest (fst s + 1, index_requests (trip_requests t) (fst s) (snd s))"

fun index_all ::
  "(vehicle \<times> trip list) list \<Rightarrow> nat \<times> (int \<Rightarrow> nat set option) \<Rightarrow> nat \<times> (int \<Rightarrow> nat set option)" where
  "index_all [] s = s"
| "index_all (vt # rest) s = index_all rest (index_trips (snd vt) s)"

text \<open>Constraint One, with the running \<^verbatim>\<open>count\<close>.\<close>

fun vehicle_constraints :: "config \<Rightarrow> (vehicle \<times> trip list) list \<Rightarrow> nat \<Rightarrow> constraint list" where
  "vehicle_constraints g [] count = []"
| "vehicle_constraints g (vt # rest) count =
     \<lparr>con_e = set [count..<count + length (snd vt)], con_x = None,
       con_sense = (if ALGORITHM g \<noteq> ILP_FULL then LE else EQ), con_rhs = 1\<rparr>
       # vehicle_constraints g rest (count + length (snd vt))"

text \<open>Constraint Two, over \<^verbatim>\<open>enumerate(requests)\<close>.\<close>

fun request_constraints :: "(int \<Rightarrow> nat set option) \<Rightarrow> request list \<Rightarrow> nat \<Rightarrow> constraint list" where
  "request_constraints rids_to_trips [] k = []"
| "request_constraints rids_to_trips (q # rest) k =
     \<lparr>con_e = indices_of rids_to_trips (rid q),
       con_x = (if assigned q then None else Some k), con_sense = EQ, con_rhs = 1\<rparr>
       # request_constraints rids_to_trips rest (k + 1)"

text \<open>
  The constraints of the model, in the order they are added; \<open>None\<close> when there is no
  trip at all and the function returns before it builds a model.
\<close>

definition ilp_constraints ::
  "config \<Rightarrow> (vehicle \<times> trip list) list \<Rightarrow> request list \<Rightarrow> constraint list option" where
  "ilp_constraints g trip_list rs =
     (let s = index_all trip_list (0, Map.empty) in
      if fst s = 0 then None
      else Some (vehicle_constraints g trip_list 0 @ request_constraints (snd s) rs 0))"

text \<open>
  The flat list \<^verbatim>\<open>all_trips\<close>: each trip with its vehicle, the vehicle being named by
  its position among the keys of \<^verbatim>\<open>trip_list\<close>.
\<close>

fun all_trips_from :: "nat \<Rightarrow> (vehicle \<times> trip list) list \<Rightarrow> (nat \<times> trip) list" where
  "all_trips_from j [] = []"
| "all_trips_from j (vt # rest) = map (\<lambda>t. (j, t)) (snd vt) @ all_trips_from (j + 1) rest"

definition all_trips :: "(vehicle \<times> trip list) list \<Rightarrow> (nat \<times> trip) list" where
  "all_trips trip_list = all_trips_from 0 trip_list"

section \<open>The time-constrained search (insersion.py, second half)\<close>

text \<open>
  The wall clock is a parameter: \<open>clock n\<close> is the value of the \<open>n\<close>-th call of
  \<^verbatim>\<open>time()\<close>, and the search threads the number of calls made so far. Wall-clock values
  are Python floats, hence \<open>real\<close>; \<^verbatim>\<open>best_time\<close> is compared with integer arrival times
  and may itself hold a float.

  The state of the loop is (\<^verbatim>\<open>previous\<close>, \<^verbatim>\<open>best_time\<close>, \<^verbatim>\<open>best_tail\<close>, calls of the
  clock, left by \<^verbatim>\<open>break\<close>).
\<close>

type_synonym timed_state = "nat option \<times> real \<times> nodestop list \<times> nat \<times> bool"

type_synonym timed_search_fn =
  "int \<Rightarrow> int \<Rightarrow> nat list \<Rightarrow> int \<Rightarrow> real \<Rightarrow> action \<Rightarrow> nat
     \<Rightarrow> ((real \<times> nodestop list) \<times> nat) option"

definition loop_body_timed ::
  "timed_search_fn \<Rightarrow> (nat \<Rightarrow> real) \<Rightarrow> real \<Rightarrow> real \<Rightarrow> config \<Rightarrow> network \<Rightarrow> meta_nodes
     \<Rightarrow> int \<Rightarrow> int \<Rightarrow> nat list \<Rightarrow> int \<Rightarrow> action \<Rightarrow> nat \<Rightarrow> timed_state \<Rightarrow> timed_state option" where
  "loop_body_timed rec clock start_time time_limit g net M initial_location residual_capacity
      srt current_time prev_action m s =
     (case s of (previous, best_time, best_tail, n, stopped) \<Rightarrow>
      if stopped then Some s
      else if time_limit \<noteq> 0 \<and> clock n - start_time > time_limit
      then Some (previous, best_time, best_tail, n + 1, True)
      else
        let n1 = (if time_limit \<noteq> 0 then n + 1 else n);
            st = meta_stop M m
        in
        if previous \<noteq> None \<and> \<not> is_pickup st \<and> node (meta_stop M (the previous)) = node st
        then Some (previous, best_time, best_tail, n1, False)
        else
          let new_location = node st;
              arrival = arrival_time g net initial_location current_time prev_action st;
              new_residual_capacity =
                (if is_pickup st then residual_capacity - 1 else residual_capacity + 1);
              remaining = remaining_nodes M srt m
          in
          if best_time \<noteq> - 1 \<and> of_int arrival \<ge> best_time
          then Some (Some m, best_time, best_tail, n1, False)
          else if new_residual_capacity < 0 then Some (Some m, best_time, best_tail, n1, False)
          else if is_pickup st \<and> arrival > latest_boarding (stop_r st)
          then Some (Some m, best_time, best_tail, n1, False)
          else if get_alight_deadline (stop_r st) < arrival
          then Some (Some m, best_time, best_tail, n1, False)
          else if \<not> basic_reachability net M arrival new_location remaining
          then Some (Some m, best_time, best_tail, n1, False)
          else
            (case rec new_location new_residual_capacity remaining arrival best_time
                    (if is_pickup st then PICKUP else DROPOFF) n1 of
               None \<Rightarrow> None
             | Some ((tail_time, tail_stops), n2) \<Rightarrow>
                 if tail_time = - 1 then Some (Some m, best_time, best_tail, n2, False)
                 else if best_time = - 1 \<or> tail_time < best_time
                 then Some (Some m, tail_time, tail_stops @ [st], n2, False)
                 else Some (Some m, best_time, best_tail, n2, False)))"

text \<open>
  \<^verbatim>\<open>recursive_search_timed\<close>, with its parameters in the order of the source:
  \<^verbatim>\<open>best_time\<close>, \<^verbatim>\<open>start_time\<close>, \<^verbatim>\<open>time_limit\<close>.
\<close>

fun recursive_search_timed ::
  "nat \<Rightarrow> (nat \<Rightarrow> real) \<Rightarrow> config \<Rightarrow> network \<Rightarrow> meta_nodes \<Rightarrow> int \<Rightarrow> int \<Rightarrow> nat list \<Rightarrow> int
     \<Rightarrow> real \<Rightarrow> real \<Rightarrow> real \<Rightarrow> action \<Rightarrow> nat \<Rightarrow> ((real \<times> nodestop list) \<times> nat) option" where
  "recursive_search_timed 0 clock g net M initial_location residual_capacity
      initially_available current_time best_time start_time time_limit prev_action n = None"
| "recursive_search_timed (Suc d) clock g net M initial_location residual_capacity
      initially_available current_time best_time start_time time_limit prev_action n =
     (let srt = sorted_metas M initially_available in
      if srt = [] then Some ((of_int current_time, []), n)
      else
        (case for_loop
                (loop_body_timed
                   (\<lambda>loc cap avail now best prev k.
                      recursive_search_timed d clock g net M loc cap avail now best
                        start_time time_limit prev k)
                   clock start_time time_limit g net M initial_location residual_capacity srt
                   current_time prev_action)
                srt (None, best_time, [], n, False)
         of None \<Rightarrow> None
          | Some (previous, best_time', best_tail, n', stopped) \<Rightarrow>
              Some ((best_time', best_tail), n')))"

text \<open>\<^verbatim>\<open>format_path\<close> on a cost that may be a float.\<close>

definition format_path_real :: "config \<Rightarrow> real \<times> nodestop list \<Rightarrow> int \<Rightarrow> real \<times> nodestop list" where
  "format_path_real g reverse_path current_time =
     (let cost = fst reverse_path;
          cost' = (if CTSP_OBJECTIVE g = CTSP_VTT \<and> cost \<ge> 0 then cost - of_int current_time
                   else cost)
      in (cost', rev (snd reverse_path)))"

text \<open>
  \<^verbatim>\<open>new_travel_timed\<close>. The stop graph is built by the same statements as in
  \<^verbatim>\<open>new_travel\<close>. The call of \<^verbatim>\<open>recursive_search_timed\<close> passes, by position,
  \<^verbatim>\<open>call_time, start_time, time_limit, -1\<close>: the callee receives \<^verbatim>\<open>start_time\<close> as its
  \<^verbatim>\<open>best_time\<close>, \<^verbatim>\<open>time_limit\<close> as its \<^verbatim>\<open>start_time\<close> and \<^verbatim>\<open>-1\<close> as its \<^verbatim>\<open>time_limit\<close>;
  \<^verbatim>\<open>prev_action\<close> keeps its default.
\<close>

definition new_travel_timed ::
  "nat \<Rightarrow> (nat \<Rightarrow> real) \<Rightarrow> config \<Rightarrow> network \<Rightarrow> vehicle \<Rightarrow> request list \<Rightarrow> int \<Rightarrow> real \<Rightarrow> int
     \<Rightarrow> error + (real \<times> nodestop list)" where
  "new_travel_timed d clock g net v requests current_time start_time time_limit =
     (case build_stops g v requests of
        Inl e \<Rightarrow> Inl e
      | Inr (M, A) \<Rightarrow>
          if CTSP g = FIX_PREFIX \<and> int (length M) > LP_LIMITVALUE g
          then
            (let new_requests =
                   remdups (filter (\<lambda>i. i \<notin> set (map rid (pending_requests v))) (map rid requests))
             in if int (length new_requests) * 2 > LP_LIMITVALUE g then Inr (- 1, [])
                else if M \<noteq> [] \<or> order_record v \<noteq> [] then Inl TypeError
                else Inl RuntimeError)
          else if CTSP_OBJECTIVE g = CTSP_VTT \<or> CTSP_OBJECTIVE g = CTSP_DELAY
          then
            (case recursive_search_timed d clock g net M (vnode v)
                    (capacity v - int (length (passengers v))) A (current_time + offset v)
                    start_time (of_int time_limit) (- 1) NO_ACTION 0 of
               None \<Rightarrow> Inl RecursionError
             | Some (optimal, n) \<Rightarrow> Inr (format_path_real g optimal current_time))
          else Inl RuntimeError)"

text \<open>
  \<^verbatim>\<open>travel_timed\<close>: without a budget it is \<^verbatim>\<open>travel\<close>; with one, the trigger is not
  looked at.
\<close>

definition travel_timed ::
  "nat \<Rightarrow> (nat \<Rightarrow> real) \<Rightarrow> config \<Rightarrow> network \<Rightarrow> vehicle \<Rightarrow> request list \<Rightarrow> int \<Rightarrow> real \<Rightarrow> int
     \<Rightarrow> trigger \<Rightarrow> error + (real \<times> nodestop list)" where
  "travel_timed d clock g net v requests current_time start_time time_limit trig =
     (if time_limit = 0
      then (case travel d g net v requests current_time trig of
              Inl e \<Rightarrow> Inl e
            | Inr (c, ord) \<Rightarrow> Inr (of_int c, ord))
      else new_travel_timed d clock g net v requests current_time start_time time_limit)"

text \<open>Example inputs: an idle vehicle of capacity 4 at node 0.\<close>

definition veh_idle :: vehicle where
  "veh_idle =
     \<lparr>vid = 1, capacity = 4, vnode = 0, offset = 0, passengers = [], pending_requests = [],
      order_record = []\<rparr>"

section \<open>Example inputs\<close>

text \<open>
  Two requests from node 1 to node 2 and the route that serves them together from an
  idle vehicle at node 0: both pickups at node 1, then both dropoffs at node 2.
\<close>

definition batch_route :: "nodestop list" where
  "batch_route =
     [pickup_of (mk_request 1 1 2), pickup_of (mk_request 2 1 2),
      dropoff_of (mk_request 1 1 2), dropoff_of (mk_request 2 1 2)]"

definition cfg_delay :: config where
  "cfg_delay = cfg_default\<lparr>CTSP_OBJECTIVE := CTSP_DELAY\<rparr>"

text \<open>
  A builder environment whose searches are the untimed \<^verbatim>\<open>travel\<close> (no time budget
  configured), with an empty RV neighbourhood and a complete RR graph.
\<close>

definition env_of :: "config \<Rightarrow> int \<Rightarrow> rtv_env" where
  "env_of g t =
     \<lparr>env_cfg = g, env_net = line_net, env_time = t,
      env_rv = (\<lambda>v. []), env_rr = (\<lambda>a b. True),
      env_search = (\<lambda>v timed rs trig. travel_timed 20 (\<lambda>n. 0) g line_net v rs t 0 0 trig),
      env_expired = (\<lambda>k i j. False)\<rparr>"

text \<open>
  A vehicle committed to request 1 (from node 1 to node 2, to be boarded by 300) with
  the stored order pickup, dropoff.
\<close>

definition veh_committed :: vehicle where
  "veh_committed =
     \<lparr>vid = 1, capacity = 4, vnode = 0, offset = 0, passengers = [],
      pending_requests = [mk_request 1 1 2],
      order_record = [pickup_of (mk_request 1 1 2), dropoff_of (mk_request 1 1 2)]\<rparr>"

text \<open>
  The same environment with two requests in the RV neighbourhood of every vehicle:
  request 1 from node 0 to node 3 and request 2 from node 1 to node 2; and the levels
  the builder computes there for the idle vehicle.
\<close>

definition env_pair :: rtv_env where
  "env_pair = (env_of cfg_default 0)\<lparr>env_rv := (\<lambda>v. [mk_request 1 0 3, mk_request 2 1 2])\<rparr>"

definition rounds_pair :: "trip list list" where
  "rounds_pair = (case rtv_rounds env_pair veh_idle of Inr rounds \<Rightarrow> rounds | Inl e \<Rightarrow> [])"

text \<open>
  A trip list for the assignment: the idle vehicle with its baseline trip and a trip
  serving request 1.
\<close>

definition trip_list_example :: "(vehicle \<times> trip list) list" where
  "trip_list_example =
     [(veh_idle,
       [Trip 0 [] [],
        Trip 120 [pickup_of (mk_request 1 1 2), dropoff_of (mk_request 1 1 2)]
          [mk_request 1 1 2]])]"

section \<open>Runs of the search\<close>

text \<open>
  The tests that a candidate stop passes before the search descends into it, apart from
  the bound and the reachability pruning: capacity after the action, boarding deadline
  for a pickup, alighting deadline for every stop.
\<close>

definition step_gates :: "config \<Rightarrow> network \<Rightarrow> int \<Rightarrow> int \<Rightarrow> int \<Rightarrow> action \<Rightarrow> nodestop \<Rightarrow> bool" where
  "step_gates g net loc cap now prev st =
     (0 \<le> (if is_pickup st then cap - 1 else cap + 1) \<and>
      \<not> (is_pickup st \<and> arrival_time g net loc now prev st > latest_boarding (stop_r st)) \<and>
      \<not> (get_alight_deadline (stop_r st) < arrival_time g net loc now prev st))"

text \<open>
  A run from a search state (location, residual capacity, available set, clock, previous
  action): a sequence of wrappers in which each one is available when it is visited and
  passes the tests, the available set evolves as in the search, and nothing is left
  available at the end. Its value is the completion time.
\<close>

fun run ::
  "config \<Rightarrow> network \<Rightarrow> meta_nodes \<Rightarrow> int \<Rightarrow> int \<Rightarrow> nat set \<Rightarrow> int \<Rightarrow> action \<Rightarrow> nat list
     \<Rightarrow> int option" where
  "run g net M loc cap A now prev [] = (if A = {} then Some now else None)"
| "run g net M loc cap A now prev (m # ms) =
     (if m \<in> A \<and> step_gates g net loc cap now prev (meta_stop M m)
      then run g net M (node (meta_stop M m))
             (if is_pickup (meta_stop M m) then cap - 1 else cap + 1)
             ((A - {m}) \<union> set (meta_unlocks M m))
             (arrival_time g net loc now prev (meta_stop M m))
             (action_of (meta_stop M m)) ms
      else None)"

text \<open>
  The vehicle records that the search is written for: no passenger is listed twice,
  every passenger has a stop in \<^verbatim>\<open>order_record\<close>, and the first stop recorded for a
  passenger is a dropoff.
\<close>

definition onboard_dropoffs_recorded :: "vehicle \<Rightarrow> bool" where
  "onboard_dropoffs_recorded v =
     (onboard_recorded v \<and> list_all (\<lambda>s. \<not> is_pickup s) (onboard_stops v))"

text \<open>
  Example input: a vehicle that carries the passenger of request 9 while its
  \<^verbatim>\<open>order_record\<close> is empty.
\<close>

definition veh_unrecorded :: vehicle where
  "veh_unrecorded =
     \<lparr>vid = 1, capacity = 4, vnode = 0, offset = 0, passengers = [mk_request 9 0 3],
      pending_requests = [], order_record = []\<rparr>"

section \<open>Feasible visit orders\<close>





















section \<open>Properties of the stop graph\<close>

lemma set_add_set [simp]: "set (set_add A m) = insert m (set A)"
  by (auto simp: set_add_def)

lemma foldl_set_add_set [simp]: "set (foldl set_add A xs) = set A \<union> set xs"
  by (induction xs arbitrary: A) auto

lemma set_add_distinct: "distinct A \<Longrightarrow> distinct (set_add A m)"
  by (auto simp: set_add_def)

lemma add_request_foldl:
  "length (fst (foldl add_request (M, A) R)) = length M + 2 * length R \<and>
   (\<forall>i < length M. fst (foldl add_request (M, A) R) ! i = M ! i) \<and>
   (\<forall>i < length R.
      fst (foldl add_request (M, A) R) ! (length M + 2 * i) = (dropoff_of (R ! i), []) \<and>
      fst (foldl add_request (M, A) R) ! (length M + 2 * i + 1)
        = (pickup_of (R ! i), [length M + 2 * i])) \<and>
   set (snd (foldl add_request (M, A) R)) = set A \<union> (\<lambda>i. length M + 2 * i + 1) ` {..<length R}"
proof (induction R arbitrary: M A)
  case Nil
  show ?case by simp
next
  case (Cons q R)
  let ?M' = "M @ [(dropoff_of q, []), (pickup_of q, [length M])]"
  let ?A' = "set_add A (length M + 1)"
  have step: "add_request (M, A) q = (?M', ?A')"
    by (simp add: add_request_def dropoff_of_def pickup_of_def)
  note IH = Cons.IH [of ?M' ?A']
  have len: "length ?M' = length M + 2" by simp
  have a: "length (fst (foldl add_request (M, A) (q # R))) = length M + 2 * length (q # R)"
    using IH by (simp add: step)
  have b: "\<forall>i < length M. fst (foldl add_request (M, A) (q # R)) ! i = M ! i"
  proof (intro allI impI)
    fix i assume "i < length M"
    then have "i < length ?M'" by simp
    with IH have "fst (foldl add_request (?M', ?A') R) ! i = ?M' ! i" by blast
    with \<open>i < length M\<close> show "fst (foldl add_request (M, A) (q # R)) ! i = M ! i"
      by (simp add: step nth_append)
  qed
  have c: "\<forall>i < length (q # R).
      fst (foldl add_request (M, A) (q # R)) ! (length M + 2 * i) = (dropoff_of ((q # R) ! i), []) \<and>
      fst (foldl add_request (M, A) (q # R)) ! (length M + 2 * i + 1)
        = (pickup_of ((q # R) ! i), [length M + 2 * i])"
  proof (intro allI impI)
    fix i assume i: "i < length (q # R)"
    show "fst (foldl add_request (M, A) (q # R)) ! (length M + 2 * i) = (dropoff_of ((q # R) ! i), []) \<and>
      fst (foldl add_request (M, A) (q # R)) ! (length M + 2 * i + 1)
        = (pickup_of ((q # R) ! i), [length M + 2 * i])"
    proof (cases i)
      case 0
      have "fst (foldl add_request (?M', ?A') R) ! (length M) = ?M' ! (length M)"
        using IH len by (metis less_add_same_cancel1 zero_less_numeral)
      moreover have "fst (foldl add_request (?M', ?A') R) ! (length M + 1) = ?M' ! (length M + 1)"
        using IH len by (metis add_less_cancel_left one_less_numeral_iff semiring_norm(76))
      ultimately show ?thesis using 0 by (simp add: step nth_append)
    next
      case (Suc j)
      then have j: "j < length R" using i by simp
      from IH j have
        "fst (foldl add_request (?M', ?A') R) ! (length ?M' + 2 * j) = (dropoff_of (R ! j), []) \<and>
         fst (foldl add_request (?M', ?A') R) ! (length ?M' + 2 * j + 1)
           = (pickup_of (R ! j), [length ?M' + 2 * j])"
        by blast
      moreover have "length ?M' + 2 * j = length M + 2 * i" using Suc by simp
      ultimately show ?thesis using Suc by (simp add: step)
    qed
  qed
  have d: "set (snd (foldl add_request (M, A) (q # R)))
             = set A \<union> (\<lambda>i. length M + 2 * i + 1) ` {..<length (q # R)}"
  proof -
    have "set (snd (foldl add_request (?M', ?A') R))
            = set ?A' \<union> (\<lambda>i. length ?M' + 2 * i + 1) ` {..<length R}"
      using IH by blast
    moreover have "(\<lambda>i. length M + 2 * i + 1) ` {..<length (q # R)}
        = insert (length M + 1) ((\<lambda>i. length ?M' + 2 * i + 1) ` {..<length R})"
    proof -
      have "{..<length (q # R)} = insert 0 (Suc ` {..<length R})"
        by (auto simp: lessThan_Suc_eq_insert_0)
      then show ?thesis by (simp add: image_image)
    qed
    ultimately show ?thesis by (simp add: step)
  qed
  from a b c d show ?case by blast
qed

lemma add_onboard_append:
  "add_onboard M ids rec = M @ add_onboard [] ids rec"
proof (induction rec arbitrary: M ids)
  case Nil
  show ?case by simp
next
  case (Cons ns rest)
  show ?case
  proof (cases "rid (stop_r ns) \<in> set ids")
    case True
    then show ?thesis
      using Cons.IH [of "M @ [(ns, [])]"] Cons.IH [of "[(ns, [])]"] by simp
  next
    case False
    then show ?thesis using Cons.IH [of M ids] by simp
  qed
qed

lemma add_onboard_unlocks: "x \<in> set (add_onboard [] ids rec) \<Longrightarrow> snd x = []"
proof (induction rec arbitrary: ids)
  case Nil
  then show ?case by simp
next
  case (Cons ns rest)
  show ?case
  proof (cases "rid (stop_r ns) \<in> set ids")
    case True
    with Cons.prems have "x \<in> set ([(ns, [])] @ add_onboard [] (removeAll (rid (stop_r ns)) ids) rest)"
      using add_onboard_append [of "[(ns, [])]"] by simp
    then show ?thesis using Cons.IH by auto
  next
    case False
    with Cons show ?thesis by simp
  qed
qed

lemma add_onboard_length:
  "distinct ids \<Longrightarrow> set ids \<subseteq> (\<lambda>s. rid (stop_r s)) ` set rec
     \<Longrightarrow> length (add_onboard [] ids rec) = length ids"
proof (induction rec arbitrary: ids)
  case Nil
  then show ?case by simp
next
  case (Cons ns rest)
  show ?case
  proof (cases "rid (stop_r ns) \<in> set ids")
    case True
    let ?ids' = "removeAll (rid (stop_r ns)) ids"
    have d: "distinct ?ids'" using Cons.prems(1) by (simp add: distinct_removeAll)
    have s: "set ?ids' \<subseteq> (\<lambda>s. rid (stop_r s)) ` set rest" using Cons.prems(2) by auto
    have l: "length ?ids' = length ids - 1"
      using True Cons.prems(1) by (simp add: distinct_remove1_removeAll [symmetric] length_remove1)
    have "length ids \<ge> 1" using True by (cases ids) auto
    moreover have "add_onboard [] ids (ns # rest) = [(ns, [])] @ add_onboard [] ?ids' rest"
      using True add_onboard_append [of "[(ns, [])]"] by simp
    ultimately show ?thesis using Cons.IH [OF d s] l by simp
  next
    case False
    then have "set ids \<subseteq> (\<lambda>s. rid (stop_r s)) ` set rest" using Cons.prems(2) by auto
    with False Cons.IH [OF Cons.prems(1)] show ?thesis by simp
  qed
qed

lemma onboard_recorded_length:
  assumes "onboard_recorded v"
  shows "length (onboard_stops v) = length (passengers v)"
proof -
  from assms have d: "distinct (map rid (passengers v))"
    and s: "set (map rid (passengers v)) \<subseteq> (\<lambda>s. rid (stop_r s)) ` set (order_record v)"
    by (auto simp: onboard_recorded_def list_all_iff)
  show ?thesis unfolding onboard_stops_def using add_onboard_length [OF d s] by simp
qed

lemma chain_unlocks_closed:
  "\<forall>i \<in> set js. 2 + i \<le> length M \<Longrightarrow>
   \<exists>M'. chain_unlocks M js = Inr M' \<and> length M' = length M \<and>
     (\<forall>x < length M. M' ! x = (if \<exists>i \<in> set js. x = length M - 2 - i
                                 then (fst (M ! x), [x + 1]) else M ! x))"
proof (induction js arbitrary: M)
  case Nil
  show ?case by simp
next
  case (Cons i js)
  let ?p = "length M - 2 - i"
  let ?M1 = "M[?p := (fst (M ! ?p), [length M - 1 - i])]"
  have i: "2 + i \<le> length M" using Cons.prems by simp
  have "\<forall>i \<in> set js. 2 + i \<le> length ?M1" using Cons.prems by simp
  from Cons.IH [OF this] obtain M' where
    M': "chain_unlocks ?M1 js = Inr M'" "length M' = length ?M1"
        "\<forall>x < length ?M1. M' ! x = (if \<exists>i \<in> set js. x = length ?M1 - 2 - i
                                 then (fst (?M1 ! x), [x + 1]) else ?M1 ! x)"
    by blast
  have "chain_unlocks M (i # js) = Inr M'" using i M'(1) by simp
  moreover have "length M' = length M" using M'(2) by simp
  moreover have "\<forall>x < length M. M' ! x = (if \<exists>i' \<in> set (i # js). x = length M - 2 - i'
                                 then (fst (M ! x), [x + 1]) else M ! x)"
  proof (intro allI impI)
    fix x assume x: "x < length M"
    have f: "fst (?M1 ! x) = fst (M ! x)" using x by (cases "x = ?p") simp_all
    show "M' ! x = (if \<exists>i' \<in> set (i # js). x = length M - 2 - i'
                                 then (fst (M ! x), [x + 1]) else M ! x)"
    proof (cases "\<exists>i' \<in> set js. x = length M - 2 - i'")
      case True
      then show ?thesis using M'(3) x f by auto
    next
      case False
      then have "M' ! x = ?M1 ! x" using M'(3) x by auto
      moreover have "?M1 ! x = (if x = ?p then (fst (M ! x), [x + 1]) else M ! x)"
        using x i by (cases "x = ?p") auto
      ultimately show ?thesis using False by auto
    qed
  qed
  ultimately show ?case by blast
qed

lemma add_last_closed:
  "\<forall>i \<in> set js. 1 + i \<le> length M \<Longrightarrow>
   \<exists>A'. add_last M A js = Inr A' \<and> set A' = set A \<union> (\<lambda>i. length M - 1 - i) ` set js"
proof (induction js arbitrary: A)
  case Nil
  show ?case by simp
next
  case (Cons i js)
  then have "\<forall>i \<in> set js. 1 + i \<le> length M" by simp
  from Cons.IH [OF this, of "set_add A (length M - 1 - i)"] Cons.prems show ?case by auto
qed


lemma build_stops_shape:
  assumes rec: "onboard_recorded v"
  shows "\<exists>M A. build_stops g v R = Inr (M, A) \<and>
           length M = 2 * length R + length (passengers v) \<and>
           map fst M = request_stops R @ onboard_stops v \<and>
           (\<forall>i < length R. M ! (2 * i) = (dropoff_of (R ! i), []) \<and>
                            M ! (2 * i + 1) = (pickup_of (R ! i), [2 * i])) \<and>
           (\<forall>i < length R. 2 * i + 1 \<in> set A \<and> 2 * i \<notin> set A) \<and>
           (if CTSP g = FIX_ONBOARD \<and> int (length R) + int (length (passengers v)) > CARSIZE g
                \<and> passengers v \<noteq> []
            then (\<forall>j < length (passengers v).
                    ((2 * length R + j \<in> set A) = (j = 0)) \<and>
                    snd (M ! (2 * length R + j))
                      = (if j + 1 < length (passengers v) then [2 * length R + j + 1] else []))
            else (\<forall>j < length (passengers v).
                    2 * length R + j \<in> set A \<and> snd (M ! (2 * length R + j)) = []))"
proof -
  define s0 where "s0 = foldl add_request ([], []) R"
  define onb where "onb = add_onboard [] (map rid (passengers v)) (order_record v)"
  define M1 where "M1 = fst s0 @ onb"
  define k where "k = length (passengers v)"
  define n where "n = length R"
  have M1: "add_onboard (fst s0) (map rid (passengers v)) (order_record v) = M1"
    unfolding M1_def onb_def by (rule add_onboard_append)
  have s0: "length (fst s0) = 2 * n"
    "\<forall>i < n. fst s0 ! (2 * i) = (dropoff_of (R ! i), []) \<and>
              fst s0 ! (2 * i + 1) = (pickup_of (R ! i), [2 * i])"
    "set (snd s0) = (\<lambda>i. 2 * i + 1) ` {..<n}"
    using add_request_foldl [of "[]" "[]" R] unfolding s0_def n_def by simp_all
  have lonb: "length onb = k"
    using onboard_recorded_length [OF rec] unfolding onboard_stops_def onb_def k_def by simp
  have lM1: "length M1 = 2 * n + k" unfolding M1_def using s0(1) lonb by simp
  have onb_unl: "\<forall>j < k. snd (M1 ! (2 * n + j)) = []"
  proof (intro allI impI)
    fix j assume "j < k"
    then have "M1 ! (2 * n + j) = onb ! j" "onb ! j \<in> set onb"
      unfolding M1_def using s0(1) lonb by (simp_all add: nth_append)
    then show "snd (M1 ! (2 * n + j)) = []"
      using add_onboard_unlocks unfolding onb_def by metis
  qed
  have req1: "\<forall>i < n. M1 ! (2 * i) = (dropoff_of (R ! i), []) \<and>
                       M1 ! (2 * i + 1) = (pickup_of (R ! i), [2 * i])"
    unfolding M1_def using s0(1,2) by (simp add: nth_append)
  have fstM1: "map fst M1 = request_stops R @ onboard_stops v"
  proof -
    have "map fst (fst s0) = request_stops R"
    proof (rule nth_equalityI)
      show l: "length (map fst (fst s0)) = length (request_stops R)"
        using s0(1) unfolding request_stops_def n_def
        by (simp add: length_concat comp_def sum_list_triv)
      fix x assume "x < length (map fst (fst s0))"
      then have x: "x < 2 * n" using s0(1) by simp
      have rs: "\<And>i. i < length R \<Longrightarrow> request_stops R ! (2 * i) = dropoff_of (R ! i) \<and>
                     request_stops R ! (2 * i + 1) = pickup_of (R ! i)"
      proof -
        fix i show "i < length R \<Longrightarrow> request_stops R ! (2 * i) = dropoff_of (R ! i) \<and>
                     request_stops R ! (2 * i + 1) = pickup_of (R ! i)"
        proof (induction R arbitrary: i)
          case Nil
          then show ?case by simp
        next
          case (Cons q R)
          show ?case
          proof (cases i)
            case 0
            then show ?thesis
              by (simp add: request_stops_def dropoff_of_def pickup_of_def)
          next
            case (Suc j)
            with Cons.prems have "j < length R" by simp
            from Cons.IH [OF this] Suc show ?thesis
              by (simp add: request_stops_def dropoff_of_def pickup_of_def)
          qed
        qed
      qed
      obtain i where i: "i < n" "x = 2 * i \<or> x = 2 * i + 1"
      proof
        show "x div 2 < n" using x by simp
        show "x = 2 * (x div 2) \<or> x = 2 * (x div 2) + 1" by presburger
      qed
      from i s0(2) rs [of i] x s0(1) show "map fst (fst s0) ! x = request_stops R ! x"
        unfolding n_def by auto
    qed
    then show ?thesis unfolding M1_def onboard_stops_def onb_def by simp
  qed
  show ?thesis
  proof (cases "CTSP g = FIX_ONBOARD \<and> int (length R) + int (length (passengers v)) > CARSIZE g
                \<and> passengers v \<noteq> []")
    case True
    then have k0: "k \<noteq> 0" unfolding k_def by simp
    have "\<forall>i \<in> set [0..<k - 1]. 2 + i \<le> length M1" using lM1 by auto
    from chain_unlocks_closed [OF this] obtain M2 where
      M2: "chain_unlocks M1 [0..<k - 1] = Inr M2" "length M2 = length M1"
          "\<forall>x < length M1. M2 ! x = (if \<exists>i \<in> set [0..<k - 1]. x = length M1 - 2 - i
                                 then (fst (M1 ! x), [x + 1]) else M1 ! x)"
      by blast
    have chained: "\<And>x. x < length M1 \<Longrightarrow>
        (\<exists>i \<in> set [0..<k - 1]. x = length M1 - 2 - i) = (2 * n \<le> x \<and> x + 1 < 2 * n + k)"
    proof -
      fix x assume x: "x < length M1"
      show "(\<exists>i \<in> set [0..<k - 1]. x = length M1 - 2 - i) = (2 * n \<le> x \<and> x + 1 < 2 * n + k)"
      proof
        assume "\<exists>i \<in> set [0..<k - 1]. x = length M1 - 2 - i"
        then show "2 * n \<le> x \<and> x + 1 < 2 * n + k" using lM1 by auto
      next
        assume a: "2 * n \<le> x \<and> x + 1 < 2 * n + k"
        then have "2 * n + k - 2 - x \<in> set [0..<k - 1]" "x = length M1 - 2 - (2 * n + k - 2 - x)"
          using lM1 by auto
        then show "\<exists>i \<in> set [0..<k - 1]. x = length M1 - 2 - i" by blast
      qed
    qed
    let ?A = "set_add (snd s0) (length M2 - k)"
    have bs: "build_stops g v R = Inr (M2, ?A)"
      unfolding build_stops_def using True M2(1,2) lM1 k0
      by (simp add: Let_def s0_def [symmetric] M1 k_def [symmetric])
    have A: "set ?A = insert (2 * n) ((\<lambda>i. 2 * i + 1) ` {..<n})"
      using s0(3) M2(2) lM1 by simp
    have p1: "length M2 = 2 * length R + length (passengers v)"
      using M2(2) lM1 unfolding n_def k_def by simp
    have p2: "map fst M2 = request_stops R @ onboard_stops v"
    proof -
      have "map fst M2 = map fst M1"
      proof (rule nth_equalityI)
        show "length (map fst M2) = length (map fst M1)" using M2(2) by simp
        fix x assume "x < length (map fst M2)"
        then have x: "x < length M1" using M2(2) by simp
        with M2(3) have "fst (M2 ! x) = fst (M1 ! x)" by (auto split: if_splits)
        then show "map fst M2 ! x = map fst M1 ! x" using x M2(2) by simp
      qed
      with fstM1 show ?thesis by simp
    qed
    have p3: "\<forall>i < length R. M2 ! (2 * i) = (dropoff_of (R ! i), []) \<and>
                            M2 ! (2 * i + 1) = (pickup_of (R ! i), [2 * i])"
    proof (intro allI impI)
      fix i assume i: "i < length R"
      then have "2 * i < length M1" "2 * i + 1 < length M1" using lM1 unfolding n_def by auto
      moreover have "\<not> (2 * n \<le> 2 * i \<and> 2 * i + 1 < 2 * n + k)"
        "\<not> (2 * n \<le> 2 * i + 1 \<and> 2 * i + 1 + 1 < 2 * n + k)"
        using i unfolding n_def by auto
      ultimately have "M2 ! (2 * i) = M1 ! (2 * i)" "M2 ! (2 * i + 1) = M1 ! (2 * i + 1)"
        using M2(3) chained by auto
      with req1 i show "M2 ! (2 * i) = (dropoff_of (R ! i), []) \<and>
                            M2 ! (2 * i + 1) = (pickup_of (R ! i), [2 * i])"
        unfolding n_def by simp
    qed
    have p4: "\<forall>i < length R. 2 * i + 1 \<in> set ?A \<and> 2 * i \<notin> set ?A"
    proof (intro allI impI)
      fix i assume "i < length R"
      then have "i < n" by (simp add: n_def)
      then show "2 * i + 1 \<in> set ?A \<and> 2 * i \<notin> set ?A"
        unfolding A by (auto simp: image_iff; presburger)
    qed
    have p5: "\<forall>j < length (passengers v).
                    ((2 * length R + j \<in> set ?A) = (j = 0)) \<and>
                    snd (M2 ! (2 * length R + j))
                      = (if j + 1 < length (passengers v) then [2 * length R + j + 1] else [])"
    proof (intro allI impI)
      fix j assume "j < length (passengers v)"
      then have j: "j < k" by (simp add: k_def)
      have a: "(2 * n + j \<in> set ?A) = (j = 0)"
        unfolding A by (auto simp: image_iff; presburger)
      have x: "2 * n + j < length M1" using lM1 j by simp
      have "M2 ! (2 * n + j) = (if j + 1 < k then (fst (M1 ! (2 * n + j)), [2 * n + j + 1])
                                else M1 ! (2 * n + j))"
        using M2(3) x chained [OF x] by auto
      with onb_unl j have "snd (M2 ! (2 * n + j)) = (if j + 1 < k then [2 * n + j + 1] else [])"
        by auto
      with a show "((2 * length R + j \<in> set ?A) = (j = 0)) \<and>
                    snd (M2 ! (2 * length R + j))
                      = (if j + 1 < length (passengers v) then [2 * length R + j + 1] else [])"
        unfolding n_def k_def by simp
    qed
    have p6: "if CTSP g = FIX_ONBOARD \<and> int (length R) + int (length (passengers v)) > CARSIZE g
                \<and> passengers v \<noteq> []
            then (\<forall>j < length (passengers v).
                    ((2 * length R + j \<in> set ?A) = (j = 0)) \<and>
                    snd (M2 ! (2 * length R + j))
                      = (if j + 1 < length (passengers v) then [2 * length R + j + 1] else []))
            else (\<forall>j < length (passengers v).
                    2 * length R + j \<in> set ?A \<and> snd (M2 ! (2 * length R + j)) = [])"
      by (subst if_P [OF True]) (rule p5)
    show ?thesis
      apply (rule exI [of _ M2], rule exI [of _ ?A])
      apply (rule conjI, rule bs)
      apply (rule conjI, rule p1)
      apply (rule conjI, rule p2)
      apply (rule conjI, rule p3)
      apply (rule conjI, rule p4)
      apply (rule p6)
      done
  next
    case False
    have "\<forall>i \<in> set [0..<k]. 1 + i \<le> length M1" using lM1 by auto
    from add_last_closed [OF this, of "snd s0"] obtain A1 where
      A1: "add_last M1 (snd s0) [0..<k] = Inr A1"
          "set A1 = set (snd s0) \<union> (\<lambda>i. length M1 - 1 - i) ` set [0..<k]"
      by blast
    have kp: "(passengers v = []) = (k = 0)" unfolding k_def by simp
    have bs: "build_stops g v R = Inr (M1, A1)"
      unfolding build_stops_def using False A1(1) kp
      by (auto simp add: Let_def s0_def [symmetric] M1 k_def [symmetric])
    have img: "(\<lambda>i. length M1 - 1 - i) ` set [0..<k] = {2 * n..<2 * n + k}"
    proof
      show "(\<lambda>i. length M1 - 1 - i) ` set [0..<k] \<subseteq> {2 * n..<2 * n + k}"
        using lM1 by auto
      show "{2 * n..<2 * n + k} \<subseteq> (\<lambda>i. length M1 - 1 - i) ` set [0..<k]"
      proof
        fix x assume "x \<in> {2 * n..<2 * n + k}"
        then have "2 * n + k - 1 - x \<in> set [0..<k]" "x = length M1 - 1 - (2 * n + k - 1 - x)"
          using lM1 by auto
        then show "x \<in> (\<lambda>i. length M1 - 1 - i) ` set [0..<k]" by blast
      qed
    qed
    have A: "set A1 = (\<lambda>i. 2 * i + 1) ` {..<n} \<union> {2 * n..<2 * n + k}"
      using A1(2) s0(3) img by simp
    have p4: "\<forall>i < length R. 2 * i + 1 \<in> set A1 \<and> 2 * i \<notin> set A1"
    proof (intro allI impI)
      fix i assume "i < length R"
      then have "i < n" by (simp add: n_def)
      then show "2 * i + 1 \<in> set A1 \<and> 2 * i \<notin> set A1"
        unfolding A by (auto simp: image_iff; presburger)
    qed
    have p5: "\<forall>j < length (passengers v).
                    2 * length R + j \<in> set A1 \<and> snd (M1 ! (2 * length R + j)) = []"
      using onb_unl unfolding A n_def k_def by auto
    have p1: "length M1 = 2 * length R + length (passengers v)"
      using lM1 unfolding n_def k_def .
    have p3: "\<forall>i < length R. M1 ! (2 * i) = (dropoff_of (R ! i), []) \<and>
                            M1 ! (2 * i + 1) = (pickup_of (R ! i), [2 * i])"
      using req1 unfolding n_def .
    have p6: "if CTSP g = FIX_ONBOARD \<and> int (length R) + int (length (passengers v)) > CARSIZE g
                \<and> passengers v \<noteq> []
            then (\<forall>j < length (passengers v).
                    ((2 * length R + j \<in> set A1) = (j = 0)) \<and>
                    snd (M1 ! (2 * length R + j))
                      = (if j + 1 < length (passengers v) then [2 * length R + j + 1] else []))
            else (\<forall>j < length (passengers v).
                    2 * length R + j \<in> set A1 \<and> snd (M1 ! (2 * length R + j)) = [])"
      by (subst if_not_P [OF False]) (rule p5)
    show ?thesis
      apply (rule exI [of _ M1], rule exI [of _ A1])
      apply (rule conjI, rule bs)
      apply (rule conjI, rule p1)
      apply (rule conjI, rule fstM1)
      apply (rule conjI, rule p3)
      apply (rule conjI, rule p4)
      apply (rule p6)
      done
  qed
qed

lemma length_request_stops: "length (request_stops R) = 2 * length R"
  unfolding request_stops_def by (induction R) simp_all

lemma first_stops_add_onboard:
  "set riders = set riders0 - set seen \<Longrightarrow>
   map fst (add_onboard [] riders rec) = first_stops riders0 seen rec"
proof (induction rec arbitrary: riders seen)
  case Nil
  show ?case by simp
next
  case (Cons ns rest)
  show ?case
  proof (cases "rid (stop_r ns) \<in> set riders")
    case True
    have e: "add_onboard [] riders (ns # rest)
               = [(ns, [])] @ add_onboard [] (removeAll (rid (stop_r ns)) riders) rest"
      using True add_onboard_append [of "[(ns, [])]"] by simp
    have "set (removeAll (rid (stop_r ns)) riders) = set riders0 - set (rid (stop_r ns) # seen)"
      using Cons.prems by auto
    from Cons.IH [OF this] True Cons.prems show ?thesis unfolding e by auto
  next
    case False
    with Cons.IH [OF Cons.prems] Cons.prems show ?thesis by auto
  qed
qed

lemma onboard_stops_recorded: "onboard_stops v = recorded_stops v"
  unfolding onboard_stops_def recorded_stops_def
  by (rule first_stops_add_onboard) simp

text \<open>
  The condition of the chain, for a vehicle whose passengers are pairwise different and
  all have a stop in \<^verbatim>\<open>order_record\<close>: under \<^verbatim>\<open>FIX_ONBOARD\<close> the onboard dropoffs form the
  chain, in \<^verbatim>\<open>order_record\<close> order, exactly when the number of new requests plus the number
  of passengers exceeds the configured \<^verbatim>\<open>CARSIZE\<close> and the vehicle has a passenger; in
  every other case all onboard dropoffs are initially available and unlock nothing.
\<close>

theorem fix_onboard_chain_by_carsize:
  assumes "onboard_recorded v"
  shows "if CTSP g = FIX_ONBOARD \<and> int (length R) + int (length (passengers v)) > CARSIZE g
            \<and> passengers v \<noteq> []
         then onboard_chained g v R else onboard_free g v R"
proof -
  from build_stops_shape [OF assms, of g R] obtain M A where
    bs: "build_stops g v R = Inr (M, A)" and
    mf: "map fst M = request_stops R @ onboard_stops v" and
    lm: "length M = 2 * length R + length (passengers v)" and
    sh: "if CTSP g = FIX_ONBOARD \<and> int (length R) + int (length (passengers v)) > CARSIZE g
                \<and> passengers v \<noteq> []
            then (\<forall>j < length (passengers v).
                    ((2 * length R + j \<in> set A) = (j = 0)) \<and>
                    snd (M ! (2 * length R + j))
                      = (if j + 1 < length (passengers v) then [2 * length R + j + 1] else []))
            else (\<forall>j < length (passengers v).
                    2 * length R + j \<in> set A \<and> snd (M ! (2 * length R + j)) = [])"
    by blast
  have st: "\<forall>j < length (passengers v). meta_stop M (2 * length R + j) = recorded_stops v ! j"
  proof (intro allI impI)
    fix j assume j: "j < length (passengers v)"
    then have "meta_stop M (2 * length R + j) = map fst M ! (2 * length R + j)"
      unfolding meta_stop_def using lm by simp
    also have "\<dots> = onboard_stops v ! j"
      unfolding mf by (simp add: nth_append length_request_stops)
    finally show "meta_stop M (2 * length R + j) = recorded_stops v ! j"
      by (simp only: onboard_stops_recorded)
  qed
  show ?thesis
  proof (cases "CTSP g = FIX_ONBOARD \<and> int (length R) + int (length (passengers v)) > CARSIZE g
            \<and> passengers v \<noteq> []")
    case True
    from sh have "\<forall>j < length (passengers v).
                    ((2 * length R + j \<in> set A) = (j = 0)) \<and>
                    snd (M ! (2 * length R + j))
                      = (if j + 1 < length (passengers v) then [2 * length R + j + 1] else [])"
      by (subst (asm) if_P [OF True])
    with st have "onboard_chained g v R"
      unfolding onboard_chained_def by (simp add: bs list_all_iff meta_unlocks_def)
    then show ?thesis by (subst if_P [OF True])
  next
    case False
    from sh have "\<forall>j < length (passengers v).
                    2 * length R + j \<in> set A \<and> snd (M ! (2 * length R + j)) = []"
      by (subst (asm) if_not_P [OF False])
    with st have "onboard_free g v R"
      unfolding onboard_free_def by (simp add: bs list_all_iff meta_unlocks_def)
    then show ?thesis by (subst if_not_P [OF False])
  qed
qed

text \<open>
  An instance: with \<^verbatim>\<open>CARSIZE = 4\<close>, two passengers and one new request the onboard
  dropoffs are all initially available.
\<close>

theorem fix_onboard_chain_by_carsize_witness:
  "onboard_recorded veh_two_onboard \<and>
   onboard_free cfg_default veh_two_onboard [mk_request 3 1 2]"
proof -
  have h: "onboard_recorded veh_two_onboard" by code_simp
  have c: "\<not> (CTSP cfg_default = FIX_ONBOARD \<and>
           int (length [mk_request 3 1 2]) + int (length (passengers veh_two_onboard))
             > CARSIZE cfg_default \<and> passengers veh_two_onboard \<noteq> [])"
    by code_simp
  from fix_onboard_chain_by_carsize [OF h, of cfg_default "[mk_request 3 1 2]"]
  have "onboard_free cfg_default veh_two_onboard [mk_request 3 1 2]"
    by (subst (asm) if_not_P [OF c])
  with h show ?thesis by simp
qed

text \<open>
  C8: under \<^verbatim>\<open>FIX_ONBOARD\<close> the onboard dropoffs are to be chained exactly when the new
  requests plus the passengers exceed the capacity of the vehicle. With capacities read
  per vehicle (\<^verbatim>\<open>CARSIZE = -1\<close>), a vehicle of capacity 4 with two passengers, recorded
  in the order dropoff of request 1, dropoff of request 2, is given one new request:
  three riders do not exceed the capacity, yet the code builds the chain (the dropoff of
  request 1 alone is available and unlocks the dropoff of request 2), and its onboard
  dropoffs are not all initially available.
\<close>

theorem fix_onboard_chain_below_capacity:
  "CTSP cfg_rowcap = FIX_ONBOARD \<and> capacity veh_two_onboard = 4 \<and>
   \<not> (int (length [mk_request 3 1 2]) + int (length (passengers veh_two_onboard))
        > capacity veh_two_onboard) \<and>
   recorded_stops veh_two_onboard = [dropoff_of (mk_request 1 0 3), dropoff_of (mk_request 2 0 1)] \<and>
   onboard_chained cfg_rowcap veh_two_onboard [mk_request 3 1 2] \<and>
   \<not> onboard_free cfg_rowcap veh_two_onboard [mk_request 3 1 2] \<and>
   build_stops cfg_rowcap veh_two_onboard [mk_request 3 1 2]
     = Inr ([(dropoff_of (mk_request 3 1 2), []), (pickup_of (mk_request 3 1 2), [0]),
             (dropoff_of (mk_request 1 0 3), [3]), (dropoff_of (mk_request 2 0 1), [])],
            [1, 2])"
  by code_simp

section \<open>The time-constrained search\<close>

text \<open>
  Whatever the stop graph, with any clock reading later than the budget minus one second
  the very first iteration of the loop breaks: the callee tests
  \<open>time() - time_limit > - 1\<close>. The search then returns the caller's \<^verbatim>\<open>start_time\<close> as a
  cost, with no stop.
\<close>

lemma for_loop_timed_stopped:
  "for_loop (loop_body_timed rec clock st0 tlim g net M loc cap srt now prev) xs (p, b, tail, n, True)
     = Some (p, b, tail, n, True)"
  by (induction xs) (simp_all add: loop_body_timed_def)

lemma timed_search_breaks_at_once:
  assumes "sorted_metas M A \<noteq> []" and "clock n - start > - 1"
  shows "recursive_search_timed (Suc d) clock g net M loc cap A now best start (- 1) prev n
           = Some ((best, []), n + 1)"
proof -
  obtain m ms where srt: "sorted_metas M A = m # ms" using assms(1) by (cases "sorted_metas M A") auto
  have "loop_body_timed (\<lambda>loc cap avail now best prev k.
                      recursive_search_timed d clock g net M loc cap avail now best
                        start (- 1) prev k) clock start (- 1) g net M loc cap (m # ms) now prev m
          (None, best, [], n, False) = Some (None, best, [], n + 1, True)"
    using assms(2) by (simp add: loop_body_timed_def)
  then show ?thesis
    by (simp add: srt for_loop_timed_stopped)
qed

lemma new_travel_timed_returns_start_time:
  assumes "build_stops g v R = Inr (M, A)" and "sorted_metas M A \<noteq> []"
    and "\<not> (CTSP g = FIX_PREFIX \<and> int (length M) > LP_LIMITVALUE g)"
    and "CTSP_OBJECTIVE g = CTSP_VTT \<or> CTSP_OBJECTIVE g = CTSP_DELAY"
    and "clock 0 - of_int time_limit > - 1"
  shows "new_travel_timed (Suc d) clock g net v R t start_time time_limit
           = Inr (format_path_real g (start_time, []) t)"
  using assms timed_search_breaks_at_once [OF assms(2), of clock 0 "of_int time_limit" d g net]
  unfolding new_travel_timed_def by auto

text \<open>
  C3, evaluated on the code: one request from node 0 to node 2, an idle vehicle at node 0,
  a budget of 5 seconds, the search started at wall-clock 1000 and no time elapsed. The
  timed search returns cost 1000 (the start time) with an empty order, while the untimed
  search finds the route pickup, dropoff of cost 120.
\<close>

theorem timed_search_drops_stops:
  "travel_timed 20 (\<lambda>n. 1000) cfg_default line_net veh_idle [mk_request 1 0 2] 0 1000 5 STANDARD
     = Inr (1000, []) \<and>
   travel 20 cfg_default line_net veh_idle [mk_request 1 0 2] 0 STANDARD
     = Inr (120, [pickup_of (mk_request 1 0 2), dropoff_of (mk_request 1 0 2)])"
  by code_simp

section \<open>The delay objective\<close>

text \<open>
  C9, evaluated on the code: for two requests from node 1 to node 2 and an idle vehicle
  at node 0, the search returns the route of both pickups followed by both dropoffs;
  under the arrival-time model of the search both dropoffs are reached at 120, a total
  delay of 120. \<^verbatim>\<open>delay_all\<close> adds, after the first of two stops at the same node, the
  travel time from that node to the node of the vehicle, and stores 360.
\<close>

theorem delay_all_batch_divergence:
  "travel 20 cfg_delay line_net veh_idle [mk_request 1 1 2, mk_request 2 1 2] 0 STANDARD
     = Inr (120, batch_route) \<and>
   route_arrivals cfg_delay line_net veh_idle 0 batch_route = [60, 60, 120, 120] \<and>
   spec_delay cfg_delay line_net veh_idle 0 batch_route = 120 \<and>
   delay_all line_net veh_idle batch_route 0 = 360 \<and>
   stored_cost (env_of cfg_delay 0) veh_idle 120 batch_route = 360"
  by code_simp

section \<open>The commitment guarantee of the RTV builder\<close>

text \<open>
  When the levels are built, the stored order is not empty and no trip of level
  \<open>|pending_requests|\<close> has the request ids of the stored order, the builder either ends
  in an exception or appends the memory trip (with \<^verbatim>\<open>use_memory\<close> set and the pending
  requests as its requests); unless the objective is \<^verbatim>\<open>CTSP_DELAY\<close>, an appended memory
  trip never comes from an infeasible replay.
\<close>

lemma memory_trip_emitted:
  assumes rounds: "rtv_rounds E v = Inr rounds"
    and nonempty: "order_record v \<noteq> []"
    and absent: "length (pending_requests v) < length rounds \<longrightarrow>
                 (\<forall>t \<in> set (rounds ! length (pending_requests v)).
                    set (map (\<lambda>s. rid (stop_r s)) (trip_order_record t))
                      \<noteq> set (map (\<lambda>s. rid (stop_r s)) (order_record v)))"
  shows "(\<exists>e. rtv_vehicle E v = Inl e) \<or>
         (\<exists>c ord. env_search E v False (pending_requests v) MEMORY = Inr (c, ord) \<and>
            rtv_vehicle E v =
              Inr (concat rounds @
                   [\<lparr>trip_cost = stored_cost E v c ord, trip_is_fake = False,
                     trip_use_memory = True, trip_order_record = ord,
                     trip_requests = pending_requests v\<rparr>]) \<and>
            (CTSP_OBJECTIVE (env_cfg E) \<noteq> CTSP_DELAY \<longrightarrow> c \<noteq> - 1))"
proof -
  let ?ptr = "(if length (pending_requests v) < length rounds
                   then map (\<lambda>t. map (\<lambda>s. rid (stop_r s)) (trip_order_record t))
                            (rounds ! length (pending_requests v))
                   else [])"
  have notin: "map (\<lambda>s. rid (stop_r s)) (order_record v) \<notin> set ?ptr"
  proof
    assume a: "map (\<lambda>s. rid (stop_r s)) (order_record v) \<in> set ?ptr"
    then have lt: "length (pending_requests v) < length rounds" by (auto split: if_splits)
    with a obtain t where t: "t \<in> set (rounds ! length (pending_requests v))"
      "map (\<lambda>s. rid (stop_r s)) (order_record v)
         = map (\<lambda>s. rid (stop_r s)) (trip_order_record t)"
      by auto
    from t(2) have "set (map (\<lambda>s. rid (stop_r s)) (trip_order_record t))
                      = set (map (\<lambda>s. rid (stop_r s)) (order_record v))"
      by (rule arg_cong [where f = set, symmetric])
    with absent lt t(1) show False by blast
  qed
  show ?thesis
  proof (cases "list_ex (\<lambda>t. trip_cost t = - 1) (concat rounds)")
    case True
    then have "rtv_vehicle E v = Inl RuntimeError"
      unfolding rtv_vehicle_def by (simp add: rounds Let_def)
    then show ?thesis by blast
  next
    case False
    show ?thesis
    proof (cases "env_search E v False (pending_requests v) MEMORY")
      case (Inl e)
      then have "rtv_vehicle E v = Inl e"
        unfolding rtv_vehicle_def previoustrip_def using False notin nonempty
        by (simp add: rounds Let_def)
      then show ?thesis by blast
    next
      case (Inr res)
      obtain c ord where res: "res = (c, ord)" by (cases res)
      show ?thesis
      proof (cases "stored_cost E v c ord = - 1")
        case True
        then have "rtv_vehicle E v = Inl RuntimeError"
          unfolding rtv_vehicle_def previoustrip_def using False notin nonempty Inr res
          by (simp add: rounds Let_def)
        then show ?thesis by blast
      next
        case ne: False
        then have "rtv_vehicle E v =
              Inr (concat rounds @
                   [\<lparr>trip_cost = stored_cost E v c ord, trip_is_fake = False,
                     trip_use_memory = True, trip_order_record = ord,
                     trip_requests = pending_requests v\<rparr>])"
          unfolding rtv_vehicle_def previoustrip_def using False notin nonempty Inr res
          by (simp add: rounds Let_def)
        moreover have "CTSP_OBJECTIVE (env_cfg E) \<noteq> CTSP_DELAY \<longrightarrow> c \<noteq> - 1"
          using ne unfolding stored_cost_def by auto
        ultimately show ?thesis using Inr res by blast
      qed
    qed
  qed
qed

text \<open>
  C4, evaluated on the code: at clock 1000 the vehicle is committed to a request that had
  to be boarded by 300, so the memory replay is infeasible (cost \<open>- 1\<close>). Under
  \<^verbatim>\<open>CTSP_DELAY\<close> the cost is overwritten by \<^verbatim>\<open>delay_all\<close> before it is tested, and the
  builder emits the memory trip with cost 0 and no stop instead of raising; under
  \<^verbatim>\<open>CTSP_VTT\<close> it raises.
\<close>

theorem memory_infeasible_not_raised:
  "travel 20 cfg_delay line_net veh_committed (pending_requests veh_committed) 1000 MEMORY
     = Inr (- 1, []) \<and>
   rtv_vehicle (env_of cfg_delay 1000) veh_committed =
     Inr [Trip 0 [] [],
          \<lparr>trip_cost = 0, trip_is_fake = False, trip_use_memory = True, trip_order_record = [],
           trip_requests = [mk_request 1 1 2]\<rparr>] \<and>
   rtv_vehicle (env_of cfg_default 1000) veh_committed = Inl RuntimeError"
  by code_simp

section \<open>The levels of the RTV builder\<close>

lemma grow_rounds_prefix:
  "grow_rounds E v rounds k t = Inr rounds' \<Longrightarrow> \<exists>ext. rounds' = rounds @ ext"
proof (induction E v rounds k t arbitrary: rounds' rule: grow_rounds.induct)
  case (1 E v rounds k timeout)
  show ?case
  proof (cases "rounds ! k \<noteq> [] \<and> \<not> timeout")
    case False
    with "1.prems" have "rounds' = rounds" by (subst (asm) grow_rounds.simps) auto
    then show ?thesis by simp
  next
    case c1: True
    show ?thesis
    proof (cases "int (k + 1) > capacity v")
      case True
      with c1 "1.prems" have "rounds' = rounds" by (subst (asm) grow_rounds.simps) auto
      then show ?thesis by simp
    next
      case c2: False
      from c1 c2 "1.prems" obtain s where
        s: "outer_loop E v (rounds ! k) (k + 1) [0..<length (rounds ! k)]
              ([], map (\<lambda>t. id_set (trip_requests t)) (rounds ! k), timeout) = Inr s"
        and r: "grow_rounds E v (rounds @ [fst s]) (k + 1) (snd (snd s)) = Inr rounds'"
        by (subst (asm) grow_rounds.simps) (auto split: sum.splits)
      from "1.IH" [OF c1 c2 s r] show ?thesis by auto
    qed
  qed
qed

lemma rtv_rounds_baseline:
  assumes "rtv_rounds E v = Inr rounds"
  shows "\<exists>c path rest. env_search E v True [] STANDARD = Inr (c, path) \<and>
           rounds = [\<lparr>trip_cost = stored_cost E v c path, trip_is_fake = False,
                      trip_use_memory = False, trip_order_record = path,
                      trip_requests = []\<rparr>] # rest"
proof -
  from assms obtain c path first where
    s: "env_search E v True [] STANDARD = Inr (c, path)" and
    g: "grow_rounds E v [[(Trip 0 [] [])\<lparr>trip_cost := stored_cost E v c path,
                                        trip_order_record := path\<rparr>], first] 1 False = Inr rounds"
    unfolding rtv_rounds_def by (auto simp: Let_def split: sum.splits prod.splits)
  from grow_rounds_prefix [OF g] obtain ext where
    "rounds = [[(Trip 0 [] [])\<lparr>trip_cost := stored_cost E v c path,
                                        trip_order_record := path\<rparr>], first] @ ext" by blast
  with s show ?thesis by (simp add: Trip_def)
qed

text \<open>
  C6. Whenever the builder returns a trip list for a vehicle, the list starts with the
  baseline trip of level 0: its request set is empty, its order is the one the search
  returns for the vehicle with no new request, and its cost is the cost of that search
  (recomputed by \<^verbatim>\<open>delay_all\<close> under \<^verbatim>\<open>CTSP_DELAY\<close>). The baseline is appended to
  \<^verbatim>\<open>rounds\<close> unconditionally.
\<close>

theorem rtv_baseline_emitted:
  assumes "rtv_vehicle E v = Inr trips"
  shows "\<exists>c path. env_search E v True [] STANDARD = Inr (c, path) \<and> trips \<noteq> [] \<and>
           hd trips = \<lparr>trip_cost = stored_cost E v c path, trip_is_fake = False,
                        trip_use_memory = False, trip_order_record = path,
                        trip_requests = []\<rparr>"
proof -
  from assms obtain rounds where r: "rtv_rounds E v = Inr rounds"
    unfolding rtv_vehicle_def by (auto split: sum.splits)
  from rtv_rounds_baseline [OF r] obtain c path rest where
    s: "env_search E v True [] STANDARD = Inr (c, path)" and
    rs: "rounds = [\<lparr>trip_cost = stored_cost E v c path, trip_is_fake = False,
                      trip_use_memory = False, trip_order_record = path,
                      trip_requests = []\<rparr>] # rest"
    by blast
  let ?b = "\<lparr>trip_cost = stored_cost E v c path, trip_is_fake = False,
                      trip_use_memory = False, trip_order_record = path,
                      trip_requests = []\<rparr>"
  have "concat rounds = ?b # concat rest" using rs by simp
  moreover have "trips = concat rounds \<or> (\<exists>pt. trips = concat rounds @ [pt])"
    using assms r unfolding rtv_vehicle_def
    by (auto simp: Let_def split: sum.splits if_splits)
  ultimately have "trips \<noteq> [] \<and> hd trips = ?b" by auto
  with s show ?thesis by blast
qed

text \<open>C6, witness: the vehicle committed to request 1, at clock 0.\<close>

theorem rtv_baseline_emitted_witness:
  "rtv_vehicle (env_of cfg_default 0) veh_committed
     = Inr [Trip 0 [] [],
            Trip 120 [pickup_of (mk_request 1 1 2), dropoff_of (mk_request 1 1 2)] [mk_request 1 1 2]] \<and>
   (\<exists>c path. env_search (env_of cfg_default 0) veh_committed True [] STANDARD = Inr (c, path) \<and>
      hd [Trip 0 [] [],
            Trip 120 [pickup_of (mk_request 1 1 2), dropoff_of (mk_request 1 1 2)] [mk_request 1 1 2]]
        = \<lparr>trip_cost = stored_cost (env_of cfg_default 0) veh_committed c path, trip_is_fake = False,
                        trip_use_memory = False, trip_order_record = path,
                        trip_requests = []\<rparr>)"
proof -
  have h: "rtv_vehicle (env_of cfg_default 0) veh_committed
     = Inr [Trip 0 [] [],
            Trip 120 [pickup_of (mk_request 1 1 2), dropoff_of (mk_request 1 1 2)] [mk_request 1 1 2]]"
    by code_simp
  from rtv_baseline_emitted [OF h] h show ?thesis by blast
qed

section \<open>The admission gates of the RTV builder\<close>

lemma request_set_foldl:
  "distinct (map rid acc) \<Longrightarrow>
   distinct (map rid (foldl (\<lambda>acc q. if rid q \<in> id_set acc then acc else acc @ [q]) acc rs)) \<and>
   id_set (foldl (\<lambda>acc q. if rid q \<in> id_set acc then acc else acc @ [q]) acc rs)
     = id_set acc \<union> id_set rs"
proof (induction rs arbitrary: acc)
  case Nil
  then show ?case by (simp add: id_set_def)
next
  case (Cons q rs)
  show ?case
  proof (cases "rid q \<in> id_set acc")
    case True
    with Cons.IH [OF Cons.prems] show ?thesis by (auto simp: id_set_def)
  next
    case False
    then have "distinct (map rid (acc @ [q]))" using Cons.prems by (auto simp: id_set_def)
    from Cons.IH [OF this] False show ?thesis by (auto simp: id_set_def)
  qed
qed

lemma request_set_ids: "id_set (request_set rs) = id_set rs"
  and request_set_distinct: "distinct (map rid (request_set rs))"
  using request_set_foldl [of "[]" rs] unfolding request_set_def by (simp_all add: id_set_def)

lemma distinct_ids_card: "distinct (map rid rs) \<Longrightarrow> card (id_set rs) = length rs"
  unfolding id_set_def by (metis distinct_card length_map)

lemma filter_ids_card:
  assumes "distinct (map rid rs)"
  shows "length (filter (\<lambda>q. rid q \<notin> P) rs) = card (id_set rs - P)"
proof -
  have d: "distinct (map rid (filter (\<lambda>q. rid q \<notin> P) rs))"
    using assms by (simp add: distinct_map_filter)
  have "id_set (filter (\<lambda>q. rid q \<notin> P) rs) = id_set rs - P"
    unfolding id_set_def by auto
  with distinct_ids_card [OF d] show ?thesis by simp
qed

lemma subsets_exist:
  assumes ase: "all_subsets_exist rs prev" and k: "card (id_set rs) = k" and k1: "1 \<le> k"
    and S: "S \<subseteq> id_set rs" "card S = k - 1"
  shows "\<exists>T' \<in> set prev. id_set (trip_requests T') = S"
proof -
  have fin: "finite (id_set rs)" unfolding id_set_def by simp
  have "card (id_set rs - S) = 1"
    using S k k1 fin by (simp add: card_Diff_subset finite_subset)
  then obtain x where x: "id_set rs - S = {x}" by (auto simp: card_1_singleton_iff)
  then have xin: "x \<in> id_set rs" by blast
  have Seq: "S = id_set rs - {x}" using x S(1) by blast
  from xin obtain q where q: "q \<in> set rs" "rid q = x" unfolding id_set_def by auto
  from ase q(1) have "list_ex (\<lambda>t. id_set (trip_requests t) = id_set rs - {rid q}) prev"
    unfolding all_subsets_exist_def by (simp add: list_all_iff)
  then show ?thesis using q(2) Seq by (auto simp: list_ex_iff)
qed

lemma pair_body_admitted:
  assumes pb: "pair_body E v prev k i j (nr, ex) = Inr (nr', ex')"
    and ij: "i < length prev" "j < length prev" and k1: "1 \<le> k"
    and inv: "\<forall>T \<in> set nr. admitted E v prev k T"
  shows "\<forall>T \<in> set nr'. admitted E v prev k T"
proof -
  let ?c = "request_set (trip_requests (prev ! i) @ trip_requests (prev ! j))"
  have cid: "id_set ?c = id_set (trip_requests (prev ! i)) \<union> id_set (trip_requests (prev ! j))"
    unfolding request_set_ids by (simp add: id_set_def)
  have cd: "distinct (map rid ?c)" by (rule request_set_distinct)
  show ?thesis
  proof (cases "nr' = nr")
    case True
    with inv show ?thesis by simp
  next
    case False
    from pb False have g1: "length ?c = k"
      and g2: "\<not> int (length (filter (\<lambda>q. rid q \<notin> id_set (pending_requests v)) ?c)) * 2
                > MAX_NEW (env_cfg E)"
      and g3: "is_rr_connected (trip_requests (prev ! i)) (trip_requests (prev ! j)) (env_rr E)"
      and g4: "all_subsets_exist ?c prev"
      unfolding pair_body_def
      by (auto simp: Let_def split: if_splits sum.splits prod.splits)
    from pb False obtain pc po where
      new: "nr' = nr @ [Trip (stored_cost E v pc po) po ?c]"
      unfolding pair_body_def
      by (auto simp: Let_def split: if_splits sum.splits prod.splits)
    have card: "card (id_set ?c) = k" using distinct_ids_card [OF cd] g1 by simp
    have "admitted E v prev k (Trip (stored_cost E v pc po) po ?c)"
      unfolding admitted_def
    proof (rule bexI [of _ "prev ! i"], rule bexI [of _ "prev ! j"], intro conjI)
      show "id_set (trip_requests (Trip (stored_cost E v pc po) po ?c)) =
          id_set (trip_requests (prev ! i)) \<union> id_set (trip_requests (prev ! j))"
        using cid by (simp add: Trip_def)
      show "card (id_set (trip_requests (Trip (stored_cost E v pc po) po ?c))) = k"
        using card by (simp add: Trip_def)
      show "2 * int (card (id_set (trip_requests (Trip (stored_cost E v pc po) po ?c))
                      - id_set (pending_requests v))) \<le> MAX_NEW (env_cfg E)"
        using g2 filter_ids_card [OF cd, of "id_set (pending_requests v)"]
        by (simp add: Trip_def)
      show "\<forall>a \<in> id_set (trip_requests (prev ! i)). \<forall>b \<in> id_set (trip_requests (prev ! j)).
           a \<noteq> b \<longrightarrow> env_rr E a b \<or> env_rr E b a"
        using g3 unfolding is_rr_connected_def id_set_def by (auto simp: list_all_iff)
      show "\<forall>S. S \<subseteq> id_set (trip_requests (Trip (stored_cost E v pc po) po ?c)) \<and> card S = k - 1
               \<longrightarrow> (\<exists>T' \<in> set prev. id_set (trip_requests T') = S)"
        using subsets_exist [OF g4 card k1] by (simp add: Trip_def)
      show "prev ! j \<in> set prev" using ij by simp
      show "prev ! i \<in> set prev" using ij by simp
    qed
    with inv new show ?thesis by auto
  qed
qed

lemma inner_loop_admitted:
  assumes "inner_loop E v prev k i js s = Inr s'"
    and "i < length prev" "\<forall>j \<in> set js. j < length prev" "1 \<le> k"
    and "\<forall>T \<in> set (fst s). admitted E v prev k T"
  shows "\<forall>T \<in> set (fst s'). admitted E v prev k T"
  using assms
proof (induction js arbitrary: s)
  case Nil
  then show ?case by simp
next
  case (Cons j js)
  show ?case
  proof (cases "env_expired E k i j")
    case True
    with Cons.prems(1) have "fst s' = fst s" by auto
    with Cons.prems(5) show ?thesis by simp
  next
    case False
    with Cons.prems(1) obtain p where
      p: "pair_body E v prev k i j (fst s, fst (snd s)) = Inr p" and
      r: "inner_loop E v prev k i js (fst p, snd p, snd (snd s)) = Inr s'"
      by (auto split: sum.splits)
    have "pair_body E v prev k i j (fst s, fst (snd s)) = Inr (fst p, snd p)" using p by simp
    from pair_body_admitted [OF this Cons.prems(2) _ Cons.prems(4,5)] Cons.prems(3)
    have "\<forall>T \<in> set (fst p). admitted E v prev k T" by simp
    with Cons.IH [OF r Cons.prems(2) _ Cons.prems(4)] Cons.prems(3) show ?thesis by simp
  qed
qed

lemma outer_loop_admitted:
  assumes "outer_loop E v prev k is s = Inr s'"
    and "\<forall>i \<in> set is. i < length prev" "1 \<le> k"
    and "\<forall>T \<in> set (fst s). admitted E v prev k T"
  shows "\<forall>T \<in> set (fst s'). admitted E v prev k T"
  using assms
proof (induction "is" arbitrary: s)
  case Nil
  then show ?case by simp
next
  case (Cons i "is")
  from Cons.prems(1) obtain s1 where
    s1: "inner_loop E v prev k i [i + 1..<length prev] s = Inr s1" and
    r: "outer_loop E v prev k is s1 = Inr s'"
    by (auto split: sum.splits)
  have "\<forall>T \<in> set (fst s1). admitted E v prev k T"
    using inner_loop_admitted [OF s1 _ _ Cons.prems(3,4)] Cons.prems(2) by simp
  with Cons.IH [OF r _ Cons.prems(3)] Cons.prems(2) show ?case by simp
qed

lemma grow_rounds_admitted:
  assumes "grow_rounds E v rounds k t = Inr rounds'"
    and "length rounds = k + 1" "1 \<le> k"
    and "\<forall>j. 2 \<le> j \<and> j < length rounds \<longrightarrow>
           (\<forall>T \<in> set (rounds ! j). admitted E v (rounds ! (j - 1)) j T)"
  shows "\<forall>j. 2 \<le> j \<and> j < length rounds' \<longrightarrow>
           (\<forall>T \<in> set (rounds' ! j). admitted E v (rounds' ! (j - 1)) j T)"
  using assms
proof (induction E v rounds k t arbitrary: rounds' rule: grow_rounds.induct)
  case (1 E v rounds k timeout)
  show ?case
  proof (cases "rounds ! k \<noteq> [] \<and> \<not> timeout")
    case False
    with "1.prems"(1) have "rounds' = rounds" by (subst (asm) grow_rounds.simps) auto
    with "1.prems"(4) show ?thesis by simp
  next
    case c1: True
    show ?thesis
    proof (cases "int (k + 1) > capacity v")
      case True
      with c1 "1.prems"(1) have "rounds' = rounds" by (subst (asm) grow_rounds.simps) auto
      with "1.prems"(4) show ?thesis by simp
    next
      case c2: False
      from c1 c2 "1.prems"(1) obtain s where
        s: "outer_loop E v (rounds ! k) (k + 1) [0..<length (rounds ! k)]
              ([], map (\<lambda>t. id_set (trip_requests t)) (rounds ! k), timeout) = Inr s"
        and r: "grow_rounds E v (rounds @ [fst s]) (k + 1) (snd (snd s)) = Inr rounds'"
        by (subst (asm) grow_rounds.simps) (auto split: sum.splits)
      have new: "\<forall>T \<in> set (fst s). admitted E v (rounds ! k) (k + 1) T"
        using outer_loop_admitted [OF s] by simp
      have inv: "\<forall>j. 2 \<le> j \<and> j < length (rounds @ [fst s]) \<longrightarrow>
           (\<forall>T \<in> set ((rounds @ [fst s]) ! j). admitted E v ((rounds @ [fst s]) ! (j - 1)) j T)"
      proof (intro allI impI)
        fix j assume j: "2 \<le> j \<and> j < length (rounds @ [fst s])"
        show "\<forall>T \<in> set ((rounds @ [fst s]) ! j). admitted E v ((rounds @ [fst s]) ! (j - 1)) j T"
        proof (cases "j < length rounds")
          case True
          then have "j - 1 < length rounds" by simp
          with True have "(rounds @ [fst s]) ! j = rounds ! j"
            "(rounds @ [fst s]) ! (j - 1) = rounds ! (j - 1)"
            by (simp_all add: nth_append)
          with "1.prems"(4) j True show ?thesis by simp
        next
          case False
          with j "1.prems"(2) have jk: "j = k + 1" by simp
          then have "(rounds @ [fst s]) ! j = fst s" "(rounds @ [fst s]) ! (j - 1) = rounds ! k"
            using "1.prems"(2) by (simp_all add: nth_append)
          with new jk show ?thesis by simp
        qed
      qed
      have len: "length (rounds @ [fst s]) = k + 1 + 1" using "1.prems"(2) by simp
      from "1.IH" [OF c1 c2 s r len _ inv] show ?thesis by simp
    qed
  qed
qed

text \<open>
  C5. Every trip of a level \<open>k \<ge> 2\<close> has a request set that is the union of the request
  sets of two trips of level \<open>k - 1\<close>, of exactly \<open>k\<close> requests, and passes the gates:
  twice the number of its requests that are not pending is at most \<^verbatim>\<open>MAX_NEW\<close>; every
  pair of distinct requests, one from each parent, has an RR edge in one direction at
  least; every subset of \<open>k - 1\<close> of its requests is the request set of a trip of level
  \<open>k - 1\<close>.
\<close>

theorem rtv_level_admitted:
  assumes "rtv_rounds E v = Inr rounds" and "2 \<le> k" and "k < length rounds"
    and "T \<in> set (rounds ! k)"
  shows "admitted E v (rounds ! (k - 1)) k T"
proof -
  from assms(1) obtain b first where
    g: "grow_rounds E v [[b], first] 1 False = Inr rounds"
    unfolding rtv_rounds_def by (auto simp: Let_def split: sum.splits prod.splits)
  have "\<forall>j. 2 \<le> j \<and> j < length rounds \<longrightarrow>
           (\<forall>T \<in> set (rounds ! j). admitted E v (rounds ! (j - 1)) j T)"
    by (rule grow_rounds_admitted [OF g]) auto
  with assms(2-4) show ?thesis by blast
qed

text \<open>C5, witness: the level 2 trip built for two requests and an idle vehicle.\<close>

theorem rtv_level_admitted_witness:
  "rtv_rounds env_pair veh_idle = Inr rounds_pair \<and> (2::nat) \<le> 2 \<and> 2 < length rounds_pair \<and>
   hd (rounds_pair ! 2) \<in> set (rounds_pair ! 2) \<and>
   admitted env_pair veh_idle (rounds_pair ! (2 - 1)) 2 (hd (rounds_pair ! 2))"
proof -
  have h1: "rtv_rounds env_pair veh_idle = Inr rounds_pair" by code_simp
  have h2: "(2::nat) \<le> 2" by simp
  have h3: "2 < length rounds_pair" by code_simp
  have h4: "hd (rounds_pair ! 2) \<in> set (rounds_pair ! 2)" by code_simp
  from rtv_level_admitted [OF h1 h2 h3 h4] h1 h2 h3 h4 show ?thesis by blast
qed

section \<open>The constraints of the assignment model\<close>

lemma indices_of_index_requests:
  "indices_of (index_requests rs idx m) x
     = indices_of m x \<union> (if x \<in> id_set rs then {idx} else {})"
proof (induction rs arbitrary: m)
  case Nil
  show ?case by (simp add: id_set_def)
next
  case (Cons q rs)
  show ?case
    by (simp add: Cons.IH) (auto simp: indices_of_def id_set_def)
qed

lemma index_trips_result:
  "fst (index_trips ts (n, m)) = n + length ts \<and>
   (\<forall>x. indices_of (snd (index_trips ts (n, m))) x
      = indices_of m x \<union> {i. n \<le> i \<and> i < n + length ts \<and> x \<in> id_set (trip_requests (ts ! (i - n)))})"
proof (induction ts arbitrary: n m)
  case Nil
  show ?case by auto
next
  case (Cons t ts)
  let ?m = "index_requests (trip_requests t) n m"
  have IH: "fst (index_trips ts (n + 1, ?m)) = n + 1 + length ts"
    "\<And>x. indices_of (snd (index_trips ts (n + 1, ?m))) x
      = indices_of ?m x \<union> {i. n + 1 \<le> i \<and> i < n + 1 + length ts
                                 \<and> x \<in> id_set (trip_requests (ts ! (i - (n + 1))))}"
    using Cons.IH [of "n + 1" ?m] by auto
  have "\<And>x. indices_of (snd (index_trips (t # ts) (n, m))) x
      = indices_of m x \<union> {i. n \<le> i \<and> i < n + length (t # ts)
                               \<and> x \<in> id_set (trip_requests ((t # ts) ! (i - n)))}"
  proof -
    fix x
    have "{i. n \<le> i \<and> i < n + length (t # ts) \<and> x \<in> id_set (trip_requests ((t # ts) ! (i - n)))}
        = (if x \<in> id_set (trip_requests t) then {n} else {}) \<union>
          {i. n + 1 \<le> i \<and> i < n + 1 + length ts \<and> x \<in> id_set (trip_requests (ts ! (i - (n + 1))))}"
      (is "?L = ?R")
    proof (rule set_eqI)
      fix i
      show "(i \<in> ?L) = (i \<in> ?R)"
      proof (cases "i = n")
        case True
        then show ?thesis by auto
      next
        case False
        then have "n \<le> i \<Longrightarrow> (t # ts) ! (i - n) = ts ! (i - (n + 1))"
          by (auto simp: nth_Cons')
        with False show ?thesis by auto
      qed
    qed
    then show "indices_of (snd (index_trips (t # ts) (n, m))) x
      = indices_of m x \<union> {i. n \<le> i \<and> i < n + length (t # ts)
                               \<and> x \<in> id_set (trip_requests ((t # ts) ! (i - n)))}"
      using IH(2) [of x] by (simp add: indices_of_index_requests Un_assoc)
  qed
  moreover have "fst (index_trips (t # ts) (n, m)) = n + length (t # ts)" using IH(1) by simp
  ultimately show ?case by blast
qed

lemma index_all_result:
  "fst (index_all tls (n, m)) = n + length (concat (map snd tls)) \<and>
   (\<forall>x. indices_of (snd (index_all tls (n, m))) x
      = indices_of m x \<union> {i. n \<le> i \<and> i < n + length (concat (map snd tls))
                               \<and> x \<in> id_set (trip_requests (concat (map snd tls) ! (i - n)))})"
proof (induction tls arbitrary: n m)
  case Nil
  show ?case by auto
next
  case (Cons vt tls)
  obtain n1 m1 where s1: "index_trips (snd vt) (n, m) = (n1, m1)" by (cases "index_trips (snd vt) (n, m)")
  have n1: "n1 = n + length (snd vt)"
    and m1: "\<And>x. indices_of m1 x = indices_of m x \<union>
        {i. n \<le> i \<and> i < n + length (snd vt) \<and> x \<in> id_set (trip_requests (snd vt ! (i - n)))}"
    using index_trips_result [of "snd vt" n m] s1 by auto
  let ?rest = "concat (map snd tls)"
  have IH: "fst (index_all tls (n1, m1)) = n1 + length ?rest"
    "\<And>x. indices_of (snd (index_all tls (n1, m1))) x
      = indices_of m1 x \<union> {i. n1 \<le> i \<and> i < n1 + length ?rest
                               \<and> x \<in> id_set (trip_requests (?rest ! (i - n1)))}"
    using Cons.IH [of n1 m1] by auto
  have a: "fst (index_all (vt # tls) (n, m)) = n + length (concat (map snd (vt # tls)))"
    using IH(1) n1 s1 by simp
  have b: "\<And>x. indices_of (snd (index_all (vt # tls) (n, m))) x
      = indices_of m x \<union> {i. n \<le> i \<and> i < n + length (concat (map snd (vt # tls)))
                               \<and> x \<in> id_set (trip_requests (concat (map snd (vt # tls)) ! (i - n)))}"
  proof -
    fix x
    have "{i. n \<le> i \<and> i < n + length (concat (map snd (vt # tls)))
              \<and> x \<in> id_set (trip_requests (concat (map snd (vt # tls)) ! (i - n)))}
        = {i. n \<le> i \<and> i < n + length (snd vt) \<and> x \<in> id_set (trip_requests (snd vt ! (i - n)))}
          \<union> {i. n1 \<le> i \<and> i < n1 + length ?rest \<and> x \<in> id_set (trip_requests (?rest ! (i - n1)))}"
      (is "?L = ?A \<union> ?B")
    proof (rule set_eqI)
      fix i
      show "(i \<in> ?L) = (i \<in> ?A \<union> ?B)"
      proof (cases "i < n + length (snd vt)")
        case True
        then have "n \<le> i \<Longrightarrow> concat (map snd (vt # tls)) ! (i - n) = snd vt ! (i - n)"
          by (simp add: nth_append)
        with True n1 show ?thesis by auto
      next
        case False
        moreover have "i - n - length (snd vt) = i - n1" using n1 by simp
        ultimately have "concat (map snd (vt # tls)) ! (i - n) = ?rest ! (i - n1)"
          by (auto simp: nth_append)
        with False n1 show ?thesis by auto
      qed
    qed
    then show "indices_of (snd (index_all (vt # tls) (n, m))) x
      = indices_of m x \<union> {i. n \<le> i \<and> i < n + length (concat (map snd (vt # tls)))
                               \<and> x \<in> id_set (trip_requests (concat (map snd (vt # tls)) ! (i - n)))}"
      using IH(2) [of x] m1 [of x] s1 by (simp add: Un_assoc)
  qed
  from a b show ?case by blast
qed

lemma all_trips_from_snd: "map snd (all_trips_from p tls) = concat (map snd tls)"
  by (induction tls arbitrary: p) (simp_all add: comp_def)

lemma all_trips_from_fst: "x \<in> set (all_trips_from p tls) \<Longrightarrow> p \<le> fst x"
proof (induction tls arbitrary: p)
  case Nil
  then show ?case by simp
next
  case (Cons vt tls)
  from Cons.prems have "x \<in> set (map (\<lambda>t. (p, t)) (snd vt)) \<or> x \<in> set (all_trips_from (Suc p) tls)"
    by simp
  then show ?case
  proof
    assume "x \<in> set (map (\<lambda>t. (p, t)) (snd vt))"
    then show ?thesis by auto
  next
    assume "x \<in> set (all_trips_from (Suc p) tls)"
    from Cons.IH [OF this] show ?thesis by simp
  qed
qed

lemma vehicle_constraints_nth:
  "j < length tls \<Longrightarrow>
   vehicle_constraints g tls c ! j =
     \<lparr>con_e = {i. c \<le> i \<and> i < c + length (all_trips_from p tls)
                 \<and> fst (all_trips_from p tls ! (i - c)) = p + j},
      con_x = None, con_sense = (if ALGORITHM g \<noteq> ILP_FULL then LE else EQ), con_rhs = 1\<rparr>"
proof (induction tls arbitrary: c p j)
  case Nil
  then show ?case by simp
next
  case (Cons vt tls)
  let ?own = "map (\<lambda>t. (p, t)) (snd vt)"
  let ?rest = "all_trips_from (p + 1) tls"
  show ?case
  proof (cases j)
    case 0
    have "{i. c \<le> i \<and> i < c + length (?own @ ?rest) \<and> fst ((?own @ ?rest) ! (i - c)) = p}
            = {c..<c + length (snd vt)}" (is "?L = ?R")
    proof (rule set_eqI)
      fix i
      show "(i \<in> ?L) = (i \<in> ?R)"
      proof (cases "c \<le> i \<and> i < c + length (snd vt)")
        case True
        then show ?thesis by (auto simp: nth_append)
      next
        case False
        have "\<not> (c \<le> i \<and> i < c + length (?own @ ?rest) \<and> fst ((?own @ ?rest) ! (i - c)) = p)"
        proof
          assume a: "c \<le> i \<and> i < c + length (?own @ ?rest) \<and> fst ((?own @ ?rest) ! (i - c)) = p"
          with False have ge: "length (snd vt) \<le> i - c" "i - c - length (snd vt) < length ?rest"
            by auto
          then have "(?own @ ?rest) ! (i - c) = ?rest ! (i - c - length (snd vt))"
            by (simp add: nth_append)
          moreover have "?rest ! (i - c - length (snd vt)) \<in> set ?rest" using ge(2) by simp
          ultimately have "p + 1 \<le> fst ((?own @ ?rest) ! (i - c))"
            using all_trips_from_fst by metis
          with a show False by simp
        qed
        with False show ?thesis by auto
      qed
    qed
    with 0 show ?thesis by simp
  next
    case (Suc j')
    with Cons.prems have j': "j' < length tls" by simp
    let ?c' = "c + length (snd vt)"
    have "{i. c \<le> i \<and> i < c + length (?own @ ?rest) \<and> fst ((?own @ ?rest) ! (i - c)) = p + j}
        = {i. ?c' \<le> i \<and> i < ?c' + length ?rest \<and> fst (?rest ! (i - ?c')) = p + 1 + j'}"
      (is "?L = ?R")
    proof (rule set_eqI)
      fix i
      show "(i \<in> ?L) = (i \<in> ?R)"
      proof (cases "i < ?c'")
        case True
        have "fst ((?own @ ?rest) ! (i - c)) = p" if "c \<le> i"
        proof -
          from that True have "i - c < length (snd vt)" by linarith
          then show ?thesis by (simp add: nth_append)
        qed
        with True Suc show ?thesis by auto
      next
        case False
        moreover have "i - c - length (snd vt) = i - ?c'" by simp
        ultimately have "(?own @ ?rest) ! (i - c) = ?rest ! (i - ?c')"
          by (auto simp: nth_append)
        with False Suc show ?thesis by auto
      qed
    qed
    moreover have "vehicle_constraints g tls ?c' ! j' =
     \<lparr>con_e = {i. ?c' \<le> i \<and> i < ?c' + length ?rest \<and> fst (?rest ! (i - ?c')) = p + 1 + j'},
      con_x = None, con_sense = (if ALGORITHM g \<noteq> ILP_FULL then LE else EQ), con_rhs = 1\<rparr>"
      by (rule Cons.IH [OF j'])
    ultimately show ?thesis using Suc by simp
  qed
qed

lemma vehicle_constraints_length: "length (vehicle_constraints g tls c) = length tls"
  by (induction tls arbitrary: c) simp_all

lemma request_constraints_length: "length (request_constraints m rs k) = length rs"
  by (induction rs arbitrary: k) simp_all

lemma request_constraints_nth:
  "i < length rs \<Longrightarrow>
   request_constraints m rs k ! i =
     \<lparr>con_e = indices_of m (rid (rs ! i)),
      con_x = (if assigned (rs ! i) then None else Some (k + i)), con_sense = EQ, con_rhs = 1\<rparr>"
proof (induction rs arbitrary: k i)
  case Nil
  then show ?case by simp
next
  case (Cons q rs)
  show ?case
  proof (cases i)
    case 0
    then show ?thesis by simp
  next
    case (Suc i')
    with Cons.prems have "i' < length rs" by simp
    from Cons.IH [OF this, of "k + 1"] Suc show ?thesis by simp
  qed
qed

text \<open>
  C7. When a model is built, its constraints are, in order: for each vehicle (each key
  of the trip list), the sum of the variables \<open>e\<close> of the trips of that vehicle, equal to
  1 under \<^verbatim>\<open>ILP_FULL\<close> and at most 1 otherwise, with no variable \<open>x\<close>; then for each
  request \<open>k\<close>, the sum of the variables \<open>e\<close> of the trips whose request set holds it, plus
  \<open>x\<close> of index \<open>k\<close> unless the request is committed, equal to 1.
\<close>

theorem ilp_constraint_structure:
  assumes "ilp_constraints g tls rs = Some cs"
  shows "length cs = length tls + length rs \<and>
    (\<forall>j < length tls. cs ! j =
       \<lparr>con_e = {i. i < length (all_trips tls) \<and> fst (all_trips tls ! i) = j}, con_x = None,
        con_sense = (if ALGORITHM g = ILP_FULL then EQ else LE), con_rhs = 1\<rparr>) \<and>
    (\<forall>k < length rs. cs ! (length tls + k) =
       \<lparr>con_e = {i. i < length (all_trips tls) \<and>
                     rid (rs ! k) \<in> id_set (trip_requests (snd (all_trips tls ! i)))},
        con_x = (if assigned (rs ! k) then None else Some k), con_sense = EQ, con_rhs = 1\<rparr>)"
proof -
  let ?s = "index_all tls (0, Map.empty)"
  let ?flat = "concat (map snd tls)"
  from assms have cs: "cs = vehicle_constraints g tls 0 @ request_constraints (snd ?s) rs 0"
    unfolding ilp_constraints_def by (auto simp: Let_def split: if_splits)
  have len: "length (all_trips tls) = length ?flat"
    unfolding all_trips_def using all_trips_from_snd [of 0 tls] by (metis length_map)
  have nth: "\<And>i. i < length ?flat \<Longrightarrow> snd (all_trips tls ! i) = ?flat ! i"
    unfolding all_trips_def using all_trips_from_snd [of 0 tls] len
    by (metis all_trips_def nth_map)
  have idx: "\<And>x. indices_of (snd ?s) x
      = {i. i < length (all_trips tls) \<and> x \<in> id_set (trip_requests (snd (all_trips tls ! i)))}"
  proof -
    fix x
    have "indices_of (snd ?s) x
        = {i. i < length ?flat \<and> x \<in> id_set (trip_requests (?flat ! i))}"
      using index_all_result [of tls 0 Map.empty] by (simp add: indices_of_def)
    also have "\<dots> = {i. i < length (all_trips tls) \<and> x \<in> id_set (trip_requests (snd (all_trips tls ! i)))}"
      using len nth by auto
    finally show "indices_of (snd ?s) x
      = {i. i < length (all_trips tls) \<and> x \<in> id_set (trip_requests (snd (all_trips tls ! i)))}" .
  qed
  have a: "length cs = length tls + length rs"
    using cs by (simp add: vehicle_constraints_length request_constraints_length)
  have b: "\<forall>j < length tls. cs ! j =
       \<lparr>con_e = {i. i < length (all_trips tls) \<and> fst (all_trips tls ! i) = j}, con_x = None,
        con_sense = (if ALGORITHM g = ILP_FULL then EQ else LE), con_rhs = 1\<rparr>"
  proof (intro allI impI)
    fix j assume j: "j < length tls"
    then have "cs ! j = vehicle_constraints g tls 0 ! j"
      using cs by (simp add: nth_append vehicle_constraints_length)
    with vehicle_constraints_nth [OF j, of g 0 0] show "cs ! j =
       \<lparr>con_e = {i. i < length (all_trips tls) \<and> fst (all_trips tls ! i) = j}, con_x = None,
        con_sense = (if ALGORITHM g = ILP_FULL then EQ else LE), con_rhs = 1\<rparr>"
      unfolding all_trips_def by simp
  qed
  have c: "\<forall>k < length rs. cs ! (length tls + k) =
       \<lparr>con_e = {i. i < length (all_trips tls) \<and>
                     rid (rs ! k) \<in> id_set (trip_requests (snd (all_trips tls ! i)))},
        con_x = (if assigned (rs ! k) then None else Some k), con_sense = EQ, con_rhs = 1\<rparr>"
  proof (intro allI impI)
    fix k assume k: "k < length rs"
    have "cs ! (length tls + k) = request_constraints (snd ?s) rs 0 ! k"
      using cs by (simp add: nth_append vehicle_constraints_length)
    with request_constraints_nth [OF k, of "snd ?s" 0] idx [of "rid (rs ! k)"]
    show "cs ! (length tls + k) =
       \<lparr>con_e = {i. i < length (all_trips tls) \<and>
                     rid (rs ! k) \<in> id_set (trip_requests (snd (all_trips tls ! i)))},
        con_x = (if assigned (rs ! k) then None else Some k), con_sense = EQ, con_rhs = 1\<rparr>"
      by simp
  qed
  from a b c show ?thesis by blast
qed

text \<open>C7, witness: one vehicle with two trips, one new request.\<close>

theorem ilp_constraint_structure_witness:
  "ilp_constraints cfg_default trip_list_example [mk_request 1 1 2]
     = Some [\<lparr>con_e = {0, 1}, con_x = None, con_sense = EQ, con_rhs = 1\<rparr>,
             \<lparr>con_e = {1}, con_x = Some 0, con_sense = EQ, con_rhs = 1\<rparr>] \<and>
   length [\<lparr>con_e = {0, 1::nat}, con_x = None, con_sense = EQ, con_rhs = 1\<rparr>,
             \<lparr>con_e = {1}, con_x = Some 0, con_sense = EQ, con_rhs = 1\<rparr>]
     = length trip_list_example + length [mk_request 1 1 2]"
proof -
  have h: "ilp_constraints cfg_default trip_list_example [mk_request 1 1 2]
     = Some [\<lparr>con_e = {0, 1}, con_x = None, con_sense = EQ, con_rhs = 1\<rparr>,
             \<lparr>con_e = {1}, con_x = Some 0, con_sense = EQ, con_rhs = 1\<rparr>]"
    by code_simp
  from ilp_constraint_structure [OF h] h show ?thesis by blast
qed

section \<open>Soundness of the search\<close>

text \<open>
  Whatever the search returns is either the bound it was given, with an empty tail, or
  the completion time of a run from its state, with the stops of that run in reverse.
\<close>

lemma for_loop_invariant:
  assumes "for_loop body xs s = Some s'" and "I s"
    and "\<And>x s s1. x \<in> set xs \<Longrightarrow> I s \<Longrightarrow> body x s = Some s1 \<Longrightarrow> I s1"
  shows "I s'"
  using assms
proof (induction xs arbitrary: s)
  case Nil
  then show ?case by simp
next
  case (Cons x xs)
  from Cons.prems(1) obtain s1 where s1: "body x s = Some s1" "for_loop body xs s1 = Some s'"
    by (auto split: option.splits)
  have i1: "I s1" using Cons.prems(3) [of x s s1] Cons.prems(2) s1(1) by simp
  show ?case
  proof (rule Cons.IH [OF s1(2) i1])
    fix y t t1 assume "y \<in> set xs" "I t" "body y t = Some t1"
    then show "I t1" using Cons.prems(3) [of y t t1] by simp
  qed
qed

lemma insert_meta_set [simp]: "set (insert_meta M x ys) = insert x (set ys)"
  by (induction ys) auto

lemma sorted_metas_set [simp]: "set (sorted_metas M xs) = set xs"
  unfolding sorted_metas_def by (induction xs) auto

lemma remaining_nodes_set [simp]:
  "set (remaining_nodes M avail m) = (set avail - {m}) \<union> set (meta_unlocks M m)"
  unfolding remaining_nodes_def by simp

lemma loop_body_cases:
  assumes "loop_body rec g net M loc cap srt now prev m (p, b, tail) = Some s1"
  shows "s1 = (p, b, tail) \<or> s1 = (Some m, b, tail) \<or>
         (\<exists>tt ts. rec (node (meta_stop M m))
                     (if is_pickup (meta_stop M m) then cap - 1 else cap + 1)
                     (remaining_nodes M srt m)
                     (arrival_time g net loc now prev (meta_stop M m)) b
                     (action_of (meta_stop M m)) = Some (tt, ts) \<and>
                  tt \<noteq> - 1 \<and> (b = - 1 \<or> tt < b) \<and>
                  step_gates g net loc cap now prev (meta_stop M m) \<and>
                  s1 = (Some m, tt, ts @ [meta_stop M m]))"
  using assms unfolding loop_body_def step_gates_def action_of_def
  by (simp add: Let_def split: if_splits option.splits prod.splits)


lemma search_sound:
  "recursive_search d g net M loc cap avail now best prev = Some (c, tail) \<Longrightarrow>
   (c = best \<and> tail = []) \<or>
   (\<exists>ms. run g net M loc cap (set avail) now prev ms = Some c \<and>
         tail = rev (map (meta_stop M) ms))"
proof (induction d arbitrary: loc cap avail now best prev c tail)
  case 0
  then show ?case by simp
next
  case (Suc d)
  let ?srt = "sorted_metas M avail"
  show ?case
  proof (cases "?srt = []")
    case True
    then have "set avail = {}" by (metis sorted_metas_set set_empty)
    moreover from Suc.prems True have "c = now" "tail = []" by (simp_all add: Let_def)
    ultimately have "run g net M loc cap (set avail) now prev [] = Some c \<and>
         tail = rev (map (meta_stop M) [])" by simp
    then show ?thesis by blast
  next
    case False
    let ?I = "\<lambda>s. case s of (p, b, tl1) \<Rightarrow>
       (b = best \<and> tl1 = []) \<or>
       (\<exists>ms. run g net M loc cap (set avail) now prev ms = Some b \<and>
             tl1 = rev (map (meta_stop M) ms))"
    from Suc.prems False obtain p where
      fl: "for_loop (loop_body (recursive_search d g net M) g net M loc cap ?srt now prev)
             ?srt (None, best, []) = Some (p, c, tail)"
      by (auto simp: Let_def split: option.splits prod.splits)
    have "?I (p, c, tail)"
    proof (rule for_loop_invariant [OF fl, where I = ?I])
      show "?I (None, best, [])" by simp
    next
      fix x s s1
      assume x: "x \<in> set ?srt" and I: "?I s"
        and b: "loop_body (recursive_search d g net M) g net M loc cap ?srt now prev x s = Some s1"
      obtain p0 b0 tl0 where s: "s = (p0, b0, tl0)" by (cases s)
      from loop_body_cases [OF b [unfolded s]]
      consider "s1 = (p0, b0, tl0)" | "s1 = (Some x, b0, tl0)"
        | tt ts where "recursive_search d g net M (node (meta_stop M x))
                     (if is_pickup (meta_stop M x) then cap - 1 else cap + 1)
                     (remaining_nodes M ?srt x)
                     (arrival_time g net loc now prev (meta_stop M x)) b0
                     (action_of (meta_stop M x)) = Some (tt, ts)"
                  "tt \<noteq> - 1" "b0 = - 1 \<or> tt < b0"
                  "step_gates g net loc cap now prev (meta_stop M x)"
                  "s1 = (Some x, tt, ts @ [meta_stop M x])"
        by blast
      then show "?I s1"
      proof cases
        case 1
        with I s show ?thesis by simp
      next
        case 2
        with I s show ?thesis by simp
      next
        case 3
        from 3(2,3) have ne: "tt \<noteq> b0" by auto
        from Suc.IH [OF 3(1)] ne obtain ms where
          ms: "run g net M (node (meta_stop M x))
                 (if is_pickup (meta_stop M x) then cap - 1 else cap + 1)
                 (set (remaining_nodes M ?srt x))
                 (arrival_time g net loc now prev (meta_stop M x))
                 (action_of (meta_stop M x)) ms = Some tt"
              "ts = rev (map (meta_stop M) ms)"
          by blast
        have "run g net M loc cap (set avail) now prev (x # ms) = Some tt"
          using ms(1) x 3(4) by simp
        moreover have "ts @ [meta_stop M x] = rev (map (meta_stop M) (x # ms))"
          using ms(2) by simp
        ultimately have "\<exists>ms'. run g net M loc cap (set avail) now prev ms' = Some tt \<and>
              ts @ [meta_stop M x] = rev (map (meta_stop M) ms')"
          by (intro exI [of _ "x # ms"] conjI)
        then show ?thesis unfolding 3(5) by (simp del: run.simps)
      qed
    qed
    then show ?thesis by simp
  qed
qed


lemma arrival_time_spec:
  "arrival_time g net loc now prev st = spec_arrive g net loc now prev st"
  unfolding arrival_time_def spec_arrive_def by (auto simp: Let_def max_def)

lemma arrival_time_ge:
  assumes "\<forall>a b. 0 \<le> get_time net a b" "0 \<le> DWELL_ALIGHT g" "0 \<le> DWELL_PICKUP g"
  shows "now \<le> arrival_time g net loc now prev st"
proof -
  have "0 \<le> get_time net loc (node st)" using assms(1) by blast
  then show ?thesis using assms(2,3) unfolding arrival_time_def by (auto simp: Let_def)
qed

lemma run_ge:
  assumes "\<forall>a b. 0 \<le> get_time net a b" "0 \<le> DWELL_ALIGHT g" "0 \<le> DWELL_PICKUP g"
  shows "run g net M loc cap A now prev ms = Some c \<Longrightarrow> now \<le> c"
proof (induction ms arbitrary: loc cap A now prev)
  case Nil
  then show ?case by (simp split: if_splits)
next
  case (Cons m ms)
  from Cons.prems have
    "run g net M (node (meta_stop M m))
             (if is_pickup (meta_stop M m) then cap - 1 else cap + 1)
             ((A - {m}) \<union> set (meta_unlocks M m))
             (arrival_time g net loc now prev (meta_stop M m))
             (action_of (meta_stop M m)) ms = Some c"
    by (simp split: if_splits)
  from Cons.IH [OF this] arrival_time_ge [OF assms, of now loc prev "meta_stop M m"]
  show ?case by simp
qed

lemma run_deadlines:
  "run g net M loc cap A now prev ms = Some c \<Longrightarrow>
   deadlines_ok (map (meta_stop M) ms) (arrivals g net loc now prev (map (meta_stop M) ms))"
proof (induction ms arbitrary: loc cap A now prev)
  case Nil
  then show ?case by (simp add: deadlines_ok_def)
next
  case (Cons m ms)
  let ?st = "meta_stop M m"
  from Cons.prems have g: "step_gates g net loc cap now prev ?st" and
    r: "run g net M (node ?st) (if is_pickup ?st then cap - 1 else cap + 1)
             ((A - {m}) \<union> set (meta_unlocks M m))
             (arrival_time g net loc now prev ?st) (action_of ?st) ms = Some c"
    by (simp_all split: if_splits)
  from g have "deadline_met ?st (spec_arrive g net loc now prev ?st)"
    unfolding step_gates_def deadline_met_def get_alight_deadline_def arrival_time_spec by auto
  with Cons.IH [OF r] show ?case
    unfolding deadlines_ok_def by (simp add: arrival_time_spec)
qed

lemma run_capacity:
  "run g net M loc cap A now prev ms = Some c \<Longrightarrow>
   list_all (\<lambda>n. n \<le> C) (onboard_counts (C - cap) (map (meta_stop M) ms))"
proof (induction ms arbitrary: loc cap A now prev)
  case Nil
  then show ?case by simp
next
  case (Cons m ms)
  let ?st = "meta_stop M m"
  let ?cap = "if is_pickup ?st then cap - 1 else cap + 1"
  from Cons.prems have g: "step_gates g net loc cap now prev ?st" and
    r: "run g net M (node ?st) ?cap
             ((A - {m}) \<union> set (meta_unlocks M m))
             (arrival_time g net loc now prev ?st) (action_of ?st) ms = Some c"
    by (simp_all split: if_splits)
  have eq: "(if is_pickup ?st then C - cap + 1 else C - cap - 1) = C - ?cap" by simp
  from g have "C - ?cap \<le> C" unfolding step_gates_def by simp
  with Cons.IH [OF r] show ?case by (simp only: list.map onboard_counts.simps eq list.pred_inject)
qed

lemma run_covers:
  "run g net M loc cap A now prev ms = Some c \<Longrightarrow> A \<subseteq> set ms"
proof (induction ms arbitrary: loc cap A now prev)
  case Nil
  then show ?case by (simp split: if_splits)
next
  case (Cons m ms)
  from Cons.prems have
    "run g net M (node (meta_stop M m))
             (if is_pickup (meta_stop M m) then cap - 1 else cap + 1)
             ((A - {m}) \<union> set (meta_unlocks M m))
             (arrival_time g net loc now prev (meta_stop M m))
             (action_of (meta_stop M m)) ms = Some c"
    by (simp split: if_splits)
  from Cons.IH [OF this] show ?case by auto
qed

lemma run_unlocks_later:
  "run g net M loc cap A now prev ms = Some c \<Longrightarrow> i < length ms \<Longrightarrow>
   u \<in> set (meta_unlocks M (ms ! i)) \<Longrightarrow> \<exists>j. i < j \<and> j < length ms \<and> ms ! j = u"
proof (induction ms arbitrary: loc cap A now prev i)
  case Nil
  then show ?case by simp
next
  case (Cons m ms)
  from Cons.prems(1) have
    r: "run g net M (node (meta_stop M m))
             (if is_pickup (meta_stop M m) then cap - 1 else cap + 1)
             ((A - {m}) \<union> set (meta_unlocks M m))
             (arrival_time g net loc now prev (meta_stop M m))
             (action_of (meta_stop M m)) ms = Some c"
    by (simp split: if_splits)
  show ?case
  proof (cases i)
    case 0
    with Cons.prems(3) have "u \<in> (A - {m}) \<union> set (meta_unlocks M m)" by simp
    with run_covers [OF r] have "u \<in> set ms" by blast
    then obtain j where "j < length ms" "ms ! j = u" by (auto simp: in_set_conv_nth)
    then have "i < Suc j \<and> Suc j < length (m # ms) \<and> (m # ms) ! Suc j = u" using 0 by simp
    then show ?thesis by blast
  next
    case (Suc i')
    with Cons.prems have "i' < length ms" "u \<in> set (meta_unlocks M (ms ! i'))" by simp_all
    from Cons.IH [OF r this] obtain j where "i' < j" "j < length ms" "ms ! j = u" by blast
    then have "i < Suc j \<and> Suc j < length (m # ms) \<and> (m # ms) ! Suc j = u" using Suc by simp
    then show ?thesis by blast
  qed
qed

section \<open>The infeasibility sentinel\<close>

lemma search_top_result:
  assumes "recursive_search d g net M loc cap A now (- 1) prev = Some (c0, tail)"
    and "\<forall>a b. 0 \<le> get_time net a b" "0 \<le> DWELL_ALIGHT g" "0 \<le> DWELL_PICKUP g"
  shows "(c0 = - 1 \<and> tail = []) \<or> now \<le> c0"
  using search_sound [OF assms(1)] run_ge [OF assms(2-4)] by blast

lemma format_path_result:
  assumes "format_path g (c0, tail) t = (c, ord)"
    and "(c0 = - 1 \<and> tail = []) \<or> t + off \<le> c0" and "0 \<le> t" "0 \<le> off"
  shows "(c = - 1 \<and> ord = []) \<or> 0 \<le> c"
  using assms unfolding format_path_def by (auto simp: Let_def split: if_splits)

text \<open>
  C10. With a non-negative clock, offset, travel times and dwell times, whatever
  \<^verbatim>\<open>travel\<close> returns is either cost \<open>- 1\<close> with an empty order or a cost that is not
  negative; and \<^verbatim>\<open>format_path\<close> leaves the cost \<open>- 1\<close> as it is.
\<close>

theorem travel_infeasible_sentinel:
  assumes "travel d g net v R t trig = Inr (c, ord)"
    and "\<forall>a b. 0 \<le> get_time net a b" "0 \<le> DWELL_ALIGHT g" "0 \<le> DWELL_PICKUP g"
    and "0 \<le> t" "0 \<le> offset v"
  shows "((c = - 1 \<and> ord = []) \<or> 0 \<le> c) \<and>
         (\<forall>tail. format_path g (- 1, tail) t = (- 1, rev tail))"
proof
  show "\<forall>tail. format_path g (- 1, tail) t = (- 1, rev tail)"
    unfolding format_path_def by simp
  show "(c = - 1 \<and> ord = []) \<or> 0 \<le> c"
  proof (cases "trig = MEMORY")
    case True
    with assms(1) obtain M A c0 tail where
      s: "recursive_search d g net M (vnode v) (capacity v - int (length (passengers v))) A
            (t + offset v) (- 1) NO_ACTION = Some (c0, tail)" and
      f: "format_path g (c0, tail) t = (c, ord)"
      unfolding travel_def memory_def
      by (auto simp: Let_def split: option.splits)
    from search_top_result [OF s assms(2-4)] format_path_result [OF f _ assms(5,6)]
    show ?thesis by blast
  next
    case False
    with assms(1) have nt: "new_travel d g net v R t = Inr (c, ord)"
      unfolding travel_def by (auto split: if_splits)
    then obtain M A where bs: "build_stops g v R = Inr (M, A)"
      unfolding new_travel_def by (auto split: sum.splits)
    show ?thesis
    proof (cases "CTSP g = FIX_PREFIX \<and> int (length M) > LP_LIMITVALUE g")
      case True
      with nt bs have "c = - 1 \<and> ord = []"
        unfolding new_travel_def by (auto simp: Let_def split: if_splits)
      then show ?thesis by blast
    next
      case False
      with nt bs obtain c0 tail where
        s: "recursive_search d g net M (vnode v) (capacity v - int (length (passengers v))) A
              (t + offset v) (- 1) NO_ACTION = Some (c0, tail)" and
        f: "format_path g (c0, tail) t = (c, ord)"
        unfolding new_travel_def
        by (auto simp: Let_def split: if_splits option.splits)
      from search_top_result [OF s assms(2-4)] format_path_result [OF f _ assms(5,6)]
      show ?thesis by blast
    qed
  qed
qed

text \<open>C10, witness: one request served by the idle vehicle on the line network.\<close>

theorem travel_infeasible_sentinel_witness:
  "travel 20 cfg_default line_net veh_idle [mk_request 1 0 2] 0 STANDARD
     = Inr (120, [pickup_of (mk_request 1 0 2), dropoff_of (mk_request 1 0 2)]) \<and>
   (\<forall>a b. 0 \<le> get_time line_net a b) \<and> 0 \<le> DWELL_ALIGHT cfg_default \<and>
   0 \<le> DWELL_PICKUP cfg_default \<and> (0::int) \<le> 0 \<and> 0 \<le> offset veh_idle \<and>
   (((120::int) = - 1 \<and> [pickup_of (mk_request 1 0 2), dropoff_of (mk_request 1 0 2)] = [])
      \<or> (0::int) \<le> 120)"
proof -
  have h1: "travel 20 cfg_default line_net veh_idle [mk_request 1 0 2] 0 STANDARD
     = Inr (120, [pickup_of (mk_request 1 0 2), dropoff_of (mk_request 1 0 2)])"
    by code_simp
  have h2: "\<forall>a b. 0 \<le> get_time line_net a b" by (simp add: get_time_def line_net_def)
  have h3: "0 \<le> DWELL_ALIGHT cfg_default" by (simp add: cfg_default_def)
  have h4: "0 \<le> DWELL_PICKUP cfg_default" by (simp add: cfg_default_def)
  have h5: "(0::int) \<le> 0" by simp
  have h6: "0 \<le> offset veh_idle" by (simp add: veh_idle_def)
  from travel_infeasible_sentinel [OF h1 h2 h3 h4 h5 h6] h1 h2 h3 h4 h5 h6 show ?thesis by blast
qed

section \<open>Validity of the returned route\<close>

lemma add_onboard_ids:
  "(\<lambda>x. rid (stop_r (fst x))) ` set (add_onboard [] js rec)
     = set js \<inter> (\<lambda>s. rid (stop_r s)) ` set rec"
proof (induction rec arbitrary: js)
  case Nil
  show ?case by simp
next
  case (Cons ns rest)
  show ?case
  proof (cases "rid (stop_r ns) \<in> set js")
    case True
    have "add_onboard [] js (ns # rest)
            = [(ns, [])] @ add_onboard [] (removeAll (rid (stop_r ns)) js) rest"
      using True add_onboard_append [of "[(ns, [])]"] by simp
    then show ?thesis using Cons.IH [of "removeAll (rid (stop_r ns)) js"] True by auto
  next
    case False
    then show ?thesis using Cons.IH [of js] by auto
  qed
qed

lemma onboard_stops_cover:
  assumes "onboard_recorded v" and "p \<in> set (passengers v)"
  shows "\<exists>s \<in> set (onboard_stops v). rid (stop_r s) = rid p"
proof -
  from assms have "rid p \<in> set (map rid (passengers v)) \<inter>
                     (\<lambda>s. rid (stop_r s)) ` set (order_record v)"
    unfolding onboard_recorded_def by (auto simp: list_all_iff)
  then have "rid p \<in> (\<lambda>x. rid (stop_r (fst x))) `
               set (add_onboard [] (map rid (passengers v)) (order_record v))"
    using add_onboard_ids by blast
  then show ?thesis unfolding onboard_stops_def by (force simp: image_iff)
qed

lemma run_route_contents:
  assumes rec: "onboard_recorded v"
    and bs: "build_stops g v R = Inr (M, A)"
    and run: "run g net M loc cap (set A) now prev ms = Some c"
  shows "(\<forall>q \<in> set R. pickup_then_dropoff (map (meta_stop M) ms) q) \<and>
         set (onboard_stops v) \<subseteq> set (map (meta_stop M) ms)"
proof -
  let ?n = "length R" and ?k = "length (passengers v)"
  from build_stops_shape [OF rec, of g R] bs have
    len: "length M = 2 * ?n + ?k" and
    fst: "map fst M = request_stops R @ onboard_stops v" and
    req: "\<forall>i < ?n. M ! (2 * i) = (dropoff_of (R ! i), []) \<and>
                      M ! (2 * i + 1) = (pickup_of (R ! i), [2 * i])" and
    av: "\<forall>i < ?n. 2 * i + 1 \<in> set A \<and> 2 * i \<notin> set A" and
    onb: "if CTSP g = FIX_ONBOARD \<and> int ?n + int ?k > CARSIZE g \<and> passengers v \<noteq> []
            then (\<forall>j < ?k. ((2 * ?n + j \<in> set A) = (j = 0)) \<and>
                    snd (M ! (2 * ?n + j)) = (if j + 1 < ?k then [2 * ?n + j + 1] else []))
            else (\<forall>j < ?k. 2 * ?n + j \<in> set A \<and> snd (M ! (2 * ?n + j)) = [])"
    by auto
  have cov: "set A \<subseteq> set ms" by (rule run_covers [OF run])
  have p1: "\<forall>q \<in> set R. pickup_then_dropoff (map (meta_stop M) ms) q"
  proof
    fix q assume "q \<in> set R"
    then obtain i where i: "i < ?n" "R ! i = q" by (auto simp: in_set_conv_nth)
    from av i(1) cov have "2 * i + 1 \<in> set ms" by blast
    then obtain a where a: "a < length ms" "ms ! a = 2 * i + 1" by (auto simp: in_set_conv_nth)
    from req i(1) have u: "2 * i \<in> set (meta_unlocks M (ms ! a))"
      unfolding meta_unlocks_def a(2) by simp
    from run_unlocks_later [OF run a(1) u] obtain b where
      b: "a < b" "b < length ms" "ms ! b = 2 * i" by blast
    have "map (meta_stop M) ms ! a = pickup_of q" "map (meta_stop M) ms ! b = dropoff_of q"
      using a b req i unfolding meta_stop_def by simp_all
    then show "pickup_then_dropoff (map (meta_stop M) ms) q"
      unfolding pickup_then_dropoff_def pickup_of_def dropoff_of_def using b(1,2)
      by (intro exI [of _ a] exI [of _ b]) simp
  qed
  have all: "\<forall>j < ?k. 2 * ?n + j \<in> set ms"
  proof (cases "CTSP g = FIX_ONBOARD \<and> int ?n + int ?k > CARSIZE g \<and> passengers v \<noteq> []")
    case True
    from onb have ch: "\<forall>j < ?k. ((2 * ?n + j \<in> set A) = (j = 0)) \<and>
                    snd (M ! (2 * ?n + j)) = (if j + 1 < ?k then [2 * ?n + j + 1] else [])"
      by (subst (asm) if_P [OF True])
    have "j < ?k \<Longrightarrow> 2 * ?n + j \<in> set ms" for j
    proof (induction j)
      case 0
      with ch have "2 * ?n + 0 \<in> set A" by blast
      with cov show ?case by auto
    next
      case (Suc j)
      then have "2 * ?n + j \<in> set ms" by simp
      then obtain a where a: "a < length ms" "ms ! a = 2 * ?n + j" by (auto simp: in_set_conv_nth)
      from ch Suc.prems have "2 * ?n + Suc j \<in> set (meta_unlocks M (ms ! a))"
        unfolding meta_unlocks_def a(2) by simp
      from run_unlocks_later [OF run a(1) this] obtain b where
        "b < length ms" "ms ! b = 2 * ?n + Suc j" by blast
      then show ?case by (metis nth_mem)
    qed
    then show ?thesis by blast
  next
    case False
    from onb have "\<forall>j < ?k. 2 * ?n + j \<in> set A \<and> snd (M ! (2 * ?n + j)) = []"
      by (subst (asm) if_not_P [OF False])
    with cov show ?thesis by blast
  qed
  have lo: "length (onboard_stops v) = ?k" by (rule onboard_recorded_length [OF rec])
  have p2: "set (onboard_stops v) \<subseteq> set (map (meta_stop M) ms)"
  proof
    fix s assume "s \<in> set (onboard_stops v)"
    then obtain j where j: "j < ?k" "onboard_stops v ! j = s" using lo by (auto simp: in_set_conv_nth)
    have "map fst M ! (2 * ?n + j) = s"
      unfolding fst using j by (simp add: nth_append length_request_stops)
    then have "meta_stop M (2 * ?n + j) = s" unfolding meta_stop_def using len j by simp
    moreover have "2 * ?n + j \<in> set ms" using all j by blast
    ultimately show "s \<in> set (map (meta_stop M) ms)" by auto
  qed
  from p1 p2 show ?thesis by blast
qed

text \<open>
  The routes of consistent vehicle records. For a vehicle whose passengers are pairwise
  different and all have a stop in \<^verbatim>\<open>order_record\<close>, the first one recorded being a
  dropoff: whenever the untimed search (trigger \<^verbatim>\<open>STANDARD\<close>) returns a cost that is not
  negative, the returned sequence holds, for every request of \<open>R\<close>, its pickup and later
  its dropoff, and a dropoff of every onboard passenger; the number of passengers
  onboard does not exceed the capacity after any stop; and under the arrival-time model
  of section 4.2 every pickup is reached by \<^verbatim>\<open>latest_boarding\<close> and every stop by the
  \<^verbatim>\<open>latest_alighting\<close> of its request.
\<close>

theorem travel_route_valid:
  assumes ret: "travel d g net v R t STANDARD = Inr (c, ord)" and pos: "0 \<le> c"
    and wf: "onboard_dropoffs_recorded v"
  shows "(\<forall>q \<in> set R. pickup_then_dropoff ord q) \<and>
         (\<forall>p \<in> set (passengers v). \<exists>s \<in> set ord. rid (stop_r s) = rid p \<and> \<not> is_pickup s) \<and>
         capacity_ok v ord \<and>
         deadlines_ok ord (route_arrivals g net v t ord)"
proof -
  from wf have rec: "onboard_recorded v" and drops: "\<forall>s \<in> set (onboard_stops v). \<not> is_pickup s"
    unfolding onboard_dropoffs_recorded_def by (auto simp: list_all_iff)
  from ret have nt: "new_travel d g net v R t = Inr (c, ord)" unfolding travel_def by simp
  then obtain M A where bs: "build_stops g v R = Inr (M, A)"
    unfolding new_travel_def by (auto split: sum.splits)
  have nb: "\<not> (CTSP g = FIX_PREFIX \<and> int (length M) > LP_LIMITVALUE g)"
  proof
    assume "CTSP g = FIX_PREFIX \<and> int (length M) > LP_LIMITVALUE g"
    with nt bs have "c = - 1" unfolding new_travel_def by (auto simp: Let_def split: if_splits)
    with pos show False by simp
  qed
  with nt bs obtain c0 tail where
    s: "recursive_search d g net M (vnode v) (capacity v - int (length (passengers v))) A
          (t + offset v) (- 1) NO_ACTION = Some (c0, tail)" and
    f: "format_path g (c0, tail) t = (c, ord)"
    unfolding new_travel_def by (auto simp: Let_def split: if_splits option.splits)
  from f pos have c0: "c0 \<noteq> - 1" and ord: "ord = rev tail"
    unfolding format_path_def by (auto simp: Let_def split: if_splits)
  with search_sound [OF s] obtain ms where
    run: "run g net M (vnode v) (capacity v - int (length (passengers v))) (set A)
            (t + offset v) NO_ACTION ms = Some c0"
    and tail: "tail = rev (map (meta_stop M) ms)"
    by blast
  have o: "ord = map (meta_stop M) ms" using ord tail by simp
  from run_route_contents [OF rec bs run] have
    p1: "\<forall>q \<in> set R. pickup_then_dropoff ord q" and sub: "set (onboard_stops v) \<subseteq> set ord"
    unfolding o by blast+
  have p2: "\<forall>p \<in> set (passengers v). \<exists>s \<in> set ord. rid (stop_r s) = rid p \<and> \<not> is_pickup s"
  proof
    fix p assume "p \<in> set (passengers v)"
    from onboard_stops_cover [OF rec this] obtain s where
      "s \<in> set (onboard_stops v)" "rid (stop_r s) = rid p" by blast
    with sub drops show "\<exists>s \<in> set ord. rid (stop_r s) = rid p \<and> \<not> is_pickup s" by blast
  qed
  have p3: "capacity_ok v ord"
    using run_capacity [OF run, of "capacity v"] unfolding capacity_ok_def o by simp
  have p4: "deadlines_ok ord (route_arrivals g net v t ord)"
    using run_deadlines [OF run] unfolding route_arrivals_def o .
  from p1 p2 p3 p4 show ?thesis by blast
qed

text \<open>
  An instance: the vehicle with two recorded passengers and one new request, under the
  default configuration.
\<close>

theorem travel_route_valid_witness:
  "travel 20 cfg_default line_net veh_two_onboard [mk_request 3 1 2] 0 STANDARD
     = Inr (180, [dropoff_of (mk_request 2 0 1), pickup_of (mk_request 3 1 2),
                  dropoff_of (mk_request 3 1 2), dropoff_of (mk_request 1 0 3)]) \<and>
   (0::int) \<le> 180 \<and> onboard_dropoffs_recorded veh_two_onboard \<and>
   capacity_ok veh_two_onboard
     [dropoff_of (mk_request 2 0 1), pickup_of (mk_request 3 1 2),
      dropoff_of (mk_request 3 1 2), dropoff_of (mk_request 1 0 3)]"
proof -
  have h1: "travel 20 cfg_default line_net veh_two_onboard [mk_request 3 1 2] 0 STANDARD
     = Inr (180, [dropoff_of (mk_request 2 0 1), pickup_of (mk_request 3 1 2),
                  dropoff_of (mk_request 3 1 2), dropoff_of (mk_request 1 0 3)])"
    by code_simp
  have h2: "(0::int) \<le> 180" by simp
  have h3: "onboard_dropoffs_recorded veh_two_onboard" by code_simp
  from travel_route_valid [OF h1 h2 h3] h1 h2 h3 show ?thesis by blast
qed

text \<open>
  C1: a returned route is to hold the dropoff of every onboard passenger. A vehicle that
  carries the passenger of request 9 while its \<^verbatim>\<open>order_record\<close> is empty is given request
  1: the search wraps no stop for the passenger, takes the last wrapper of the store (the
  pickup of request 1) for the passenger's, and returns cost 120 with the route pickup,
  dropoff of request 1, in which no stop belongs to the passenger. Given no request at
  all, the same vehicle makes the search fail with an IndexError.
\<close>

theorem travel_strands_unrecorded_passenger:
  "travel 20 cfg_default line_net veh_unrecorded [mk_request 1 0 2] 0 STANDARD
     = Inr (120, [pickup_of (mk_request 1 0 2), dropoff_of (mk_request 1 0 2)]) \<and>
   passengers veh_unrecorded = [mk_request 9 0 3] \<and>
   \<not> (\<exists>s \<in> set [pickup_of (mk_request 1 0 2), dropoff_of (mk_request 1 0 2)].
         rid (stop_r s) = rid (mk_request 9 0 3)) \<and>
   build_stops cfg_default veh_unrecorded [mk_request 1 0 2]
     = Inr ([(dropoff_of (mk_request 1 0 2), []), (pickup_of (mk_request 1 0 2), [0])], [1]) \<and>
   travel 20 cfg_default line_net veh_unrecorded [] 0 STANDARD = Inl IndexError"
  by code_simp

section \<open>Exactness of the search\<close>


































































end
